theory Spec2Isabelle
  imports Main
begin

section \<open>JavaScript strings and ordered sets\<close>

text \<open>
  Strings are character lists. The helpers below are the \<^verbatim>\<open>String.prototype\<close> methods
  the sources call, each with the behaviour the language gives it on the arguments used
  there (every separator and every needle in the sources is a non-empty literal).
\<close>

definition startsWith :: "string \<Rightarrow> string \<Rightarrow> bool" where
  "startsWith s p = (take (length p) s = p)"

fun includes_str :: "string \<Rightarrow> string \<Rightarrow> bool" where
  "includes_str [] p = (p = [])"
| "includes_str (c # cs) p = (startsWith (c # cs) p \<or> includes_str cs p)"

text \<open>\<^verbatim>\<open>s.lastIndexOf(p)\<close>: the greatest index at which \<open>p\<close> occurs, \<open>None\<close> for -1.\<close>

fun lastIndexOf :: "string \<Rightarrow> string \<Rightarrow> nat option" where
  "lastIndexOf [] p = (if p = [] then Some 0 else None)"
| "lastIndexOf (c # cs) p =
     (case lastIndexOf cs p of
        Some i \<Rightarrow> Some (Suc i)
      | None \<Rightarrow> if startsWith (c # cs) p then Some 0 else None)"

text \<open>
  \<^verbatim>\<open>s.split(sep)\<close> for a non-empty separator: \<open>split_from sep k s cur\<close> scans \<open>s\<close>, with
  \<open>cur\<close> the piece read so far and \<open>k\<close> the characters of a separator found earlier
  that are still to be skipped.
\<close>

fun split_from :: "string \<Rightarrow> nat \<Rightarrow> string \<Rightarrow> string \<Rightarrow> string list" where
  "split_from sep k [] cur = [cur]"
| "split_from sep (Suc k) (c # cs) cur = split_from sep k cs cur"
| "split_from sep 0 (c # cs) cur =
     (if startsWith (c # cs) sep then cur # split_from sep (length sep - 1) cs []
      else split_from sep 0 cs (cur @ [c]))"

definition split_str :: "string \<Rightarrow> string \<Rightarrow> string list" where
  "split_str s sep = split_from sep 0 s []"

text \<open>\<^verbatim>\<open>xs.join(sep)\<close>.\<close>

fun join_str :: "string list \<Rightarrow> string \<Rightarrow> string" where
  "join_str [] sep = []"
| "join_str [x] sep = x"
| "join_str (x # y # ys) sep = x @ sep @ join_str (y # ys) sep"

text \<open>
  A JavaScript \<^verbatim>\<open>Set\<close> of strings iterates in insertion order, so it is a duplicate-free
  list: \<open>Set_add\<close> appends an element that is not there yet, and \<^verbatim>\<open>new Set(xs)\<close> adds the
  elements of \<open>xs\<close> from left to right.
\<close>

definition Set_add :: "string list \<Rightarrow> string \<Rightarrow> string list" where
  "Set_add seen x = (if x \<in> set seen then seen else seen @ [x])"

definition new_Set :: "string list \<Rightarrow> string list" where
  "new_Set xs = foldl Set_add [] xs"

section \<open>Node's \<^verbatim>\<open>path.join\<close>\<close>

text \<open>
  \<^verbatim>\<open>path.join\<close> belongs to the Node runtime, not to the repository. It is modelled here
  for POSIX paths as the runtime documents it: the non-empty arguments are joined with
  \<^verbatim>\<open>/\<close> and the result is normalised (empty and \<^verbatim>\<open>.\<close> segments dropped, \<^verbatim>\<open>..\<close> resolved
  against the segment before it, a trailing slash kept).
\<close>

definition normalizeStep :: "bool \<Rightarrow> string list \<Rightarrow> string \<Rightarrow> string list" where
  "normalizeStep allowAboveRoot res seg =
     (if seg = [] \<or> seg = ''.'' then res
      else if seg = ''..'' then
        (if res \<noteq> [] \<and> last res \<noteq> ''..'' then butlast res
         else if allowAboveRoot then res @ [''..'']
         else res)
      else res @ [seg])"

definition normalizeString :: "string \<Rightarrow> bool \<Rightarrow> string" where
  "normalizeString p allowAboveRoot =
     join_str (foldl (normalizeStep allowAboveRoot) [] (split_str p ''/'')) ''/''"

definition posix_normalize :: "string \<Rightarrow> string" where
  "posix_normalize p =
     (if p = [] then ''.''
      else
        let isAbsolute = (hd p = CHR ''/'');
            trailingSeparator = (last p = CHR ''/'');
            q = normalizeString p (\<not> isAbsolute)
        in if q = [] then (if isAbsolute then ''/'' else if trailingSeparator then ''./'' else ''.'')
           else (if isAbsolute then ''/'' else []) @ q @ (if trailingSeparator then ''/'' else []))"

definition path_join :: "string list \<Rightarrow> string" where
  "path_join args =
     (let parts = filter (\<lambda>a. a \<noteq> []) args
      in if parts = [] then ''.'' else posix_normalize (join_str parts ''/''))"

section \<open>The dependency resolver (\<^verbatim>\<open>src/preload.ts\<close>)\<close>

subsection \<open>URL rewriting\<close>

definition extractPackageName :: "string \<Rightarrow> string option" where
  "extractPackageName filePath =
     (case lastIndexOf filePath ''node_modules/'' of
        None \<Rightarrow> None
      | Some nodeModulesIndex \<Rightarrow>
          (let afterNodeModules = drop (nodeModulesIndex + length ''node_modules/'') filePath;
               parts = split_str afterNodeModules ''/''
           in if startsWith (hd parts) ''@''
              then (if length parts > 1 then Some (hd parts @ ''_'' @ parts ! 1)
                    else Some (hd parts))
              else Some (hd parts)))"

text \<open>
  \<^verbatim>\<open>if (packageName)\<close> is a truthiness test: \<^verbatim>\<open>null\<close> and the empty string both fail it.
\<close>

definition getOptimizedUrl :: "string \<Rightarrow> string" where
  "getOptimizedUrl ident =
     (if startsWith ident ''/@id/'' \<or> startsWith ident ''/@fs/''
         \<or> startsWith ident ''/node_modules/.vite/deps/''
      then ident
      else
        (case (if includes_str ident ''node_modules'' \<and> \<not> includes_str ident ''.vite/deps''
               then extractPackageName ident else None) of
           Some packageName \<Rightarrow>
             (if packageName \<noteq> [] then ''/node_modules/.vite/deps/'' @ packageName @ ''.js''
              else path_join [''/@fs/'', ident])
         | None \<Rightarrow> path_join [''/@fs/'', ident]))"

subsection \<open>The development module graph\<close>

datatype error = GraphError | TypeError | SyntaxError | HookError | ExternalError

text \<open>
  A \<^verbatim>\<open>ModuleNode\<close> as the resolver reads it: its \<^verbatim>\<open>id\<close> (which may be \<^verbatim>\<open>null\<close>) and, for
  each member of \<^verbatim>\<open>importedModules\<close> in iteration order, that member's \<^verbatim>\<open>id\<close>. The graph
  backend is a finite table from identifiers to nodes; \<open>throwsOn\<close> tells for which
  identifiers \<^verbatim>\<open>moduleGraph.getModuleById\<close> raises instead of answering.
\<close>

record moduleNode =
  node_id :: "string option"
  importedModules :: "string option list"

record moduleGraph =
  idToModuleMap :: "(string \<times> moduleNode) list"
  throwsOn :: "string \<Rightarrow> bool"

definition getModuleById :: "moduleGraph \<Rightarrow> string \<Rightarrow> error + moduleNode option" where
  "getModuleById g i =
     (if throwsOn g i then Inl GraphError else Inr (map_of (idToModuleMap g) i))"

text \<open>
  \<^verbatim>\<open>collectDepsDev\<close> with its \<^verbatim>\<open>for\<close> loop over \<^verbatim>\<open>mod.importedModules\<close>. The set \<^verbatim>\<open>seen\<close>
  is mutated in place by the source and threaded through here. \<^verbatim>\<open>!mod.id\<close> and
  \<^verbatim>\<open>if (dep.id)\<close> are truthiness tests, which \<^verbatim>\<open>null\<close> and the empty string fail. An
  exception of the backend leaves through every enclosing call.
\<close>

function collectDepsDev :: "moduleGraph \<Rightarrow> string \<Rightarrow> string list \<Rightarrow> error + string list"
  and collectDepsDev_imports ::
    "moduleGraph \<Rightarrow> string option list \<Rightarrow> string list \<Rightarrow> error + string list"
where
  "collectDepsDev g entryId seen =
     (case getModuleById g entryId of
        Inl e \<Rightarrow> Inl e
      | Inr None \<Rightarrow> Inr seen
      | Inr (Some m) \<Rightarrow>
          (case node_id m of
             None \<Rightarrow> Inr seen
           | Some i \<Rightarrow>
               if i = [] \<or> i \<in> set seen then Inr seen
               else collectDepsDev_imports g (importedModules m) (Set_add seen i)))"
| "collectDepsDev_imports g [] seen = Inr seen"
| "collectDepsDev_imports g (dep # deps) seen =
     (case dep of
        None \<Rightarrow> collectDepsDev_imports g deps seen
      | Some d \<Rightarrow>
          if d = [] then collectDepsDev_imports g deps seen
          else (case collectDepsDev g d seen of
                  Inl e \<Rightarrow> Inl e
                | Inr seen' \<Rightarrow> collectDepsDev_imports g deps seen'))"
  by pat_completeness auto

text \<open>
  Termination: every call that goes on adds to \<open>seen\<close> an identifier of the finite table
  that was not in it, and a call never removes one.
\<close>

definition graph_ids :: "moduleGraph \<Rightarrow> string set" where
  "graph_ids g = {i. \<exists>m \<in> snd ` set (idToModuleMap g). node_id m = Some i}"

lemma finite_graph_ids: "finite (graph_ids g)"
proof -
  have "graph_ids g \<subseteq> (\<lambda>m. the (node_id m)) ` snd ` set (idToModuleMap g)"
    by (force simp: graph_ids_def)
  then show ?thesis by (rule finite_subset) simp
qed

lemma collectDepsDev_dom_grows:
  "collectDepsDev_collectDepsDev_imports_dom (Inl (g, e, seen)) \<Longrightarrow>
     collectDepsDev g e seen = Inr r \<Longrightarrow> set seen \<subseteq> set r"
  "collectDepsDev_collectDepsDev_imports_dom (Inr (g, ds, seen)) \<Longrightarrow>
     collectDepsDev_imports g ds seen = Inr r' \<Longrightarrow> set seen \<subseteq> set r'"
proof (induction g e seen and g ds seen arbitrary: r and r'
    rule: collectDepsDev_collectDepsDev_imports.pinduct)
  case (1 g entryId seen)
  note eq = "1.prems"[unfolded collectDepsDev.psimps[OF "1.hyps"]]
  show ?case
  proof (cases "getModuleById g entryId")
    case (Inl e)
    with eq show ?thesis by simp
  next
    case (Inr x)
    show ?thesis
    proof (cases x)
      case None
      with eq Inr show ?thesis by simp
    next
      case (Some m)
      show ?thesis
      proof (cases "node_id m")
        case None
        with eq Inr Some show ?thesis by simp
      next
        case (Some i)
        show ?thesis
        proof (cases "i = [] \<or> i \<in> set seen")
          case True
          with eq Inr \<open>x = Some m\<close> Some show ?thesis by auto
        next
          case False
          with eq Inr \<open>x = Some m\<close> Some
          have "collectDepsDev_imports g (importedModules m) (Set_add seen i) = Inr r" by simp
          from "1.IH"[OF Inr \<open>x = Some m\<close> Some False this]
          show ?thesis by (auto simp: Set_add_def split: if_splits)
        qed
      qed
    qed
  qed
next
  case (2 g seen)
  then show ?case by (simp add: collectDepsDev_imports.psimps)
next
  case (3 g dep deps seen)
  note eq = "3.prems"[unfolded collectDepsDev_imports.psimps(2)[OF "3.hyps"]]
  show ?case
  proof (cases dep)
    case None
    with eq have "collectDepsDev_imports g deps seen = Inr r'" by simp
    from "3.IH"(1)[OF None this] show ?thesis .
  next
    case (Some d)
    show ?thesis
    proof (cases "d = []")
      case True
      with eq Some have "collectDepsDev_imports g deps seen = Inr r'" by simp
      from "3.IH"(2)[OF Some True this] show ?thesis .
    next
      case False
      with eq Some obtain s where s: "collectDepsDev g d seen = Inr s"
        and r: "collectDepsDev_imports g deps s = Inr r'"
        by (auto split: sum.splits)
      from "3.IH"(3)[OF Some False s] have "set seen \<subseteq> set s" .
      moreover from "3.IH"(4)[OF Some False s r] have "set s \<subseteq> set r'" .
      ultimately show ?thesis by blast
    qed
  qed
qed

termination collectDepsDev
proof (relation "inv_image (less_than <*lex*> less_than)
    (\<lambda>x. case x of
            Inl (g, e, seen) \<Rightarrow> (card (graph_ids g - set seen), 0)
          | Inr (g, ds, seen) \<Rightarrow> (card (graph_ids g - set seen), Suc (length ds)))",
    goal_cases)
  case 1
  show ?case by (intro wf_inv_image wf_lex_prod wf_less_than)
next
  case (2 g entryId seen x2 m i)
  from 2(1,2,3) have "i \<in> graph_ids g"
    by (auto simp: graph_ids_def getModuleById_def split: if_splits
        dest!: map_of_SomeD intro!: bexI[of _ "(entryId, m)"])
  moreover have "i \<notin> set seen" using 2 by simp
  ultimately have "graph_ids g - set (Set_add seen i) \<subset> graph_ids g - set seen"
    by (auto simp: Set_add_def)
  then have "card (graph_ids g - set (Set_add seen i)) < card (graph_ids g - set seen)"
    by (intro psubset_card_mono) (simp_all add: finite_graph_ids)
  then show ?case by simp
next
  case (3 g dep deps seen)
  then show ?case by simp
next
  case (4 g dep deps seen d)
  then show ?case by simp
next
  case (5 g dep deps seen d)
  then show ?case by simp
next
  case (6 g dep deps seen d r)
  then have "set seen \<subseteq> set r" using collectDepsDev_dom_grows(1) by blast
  then have "card (graph_ids g - set r) \<le> card (graph_ids g - set seen)"
    by (intro card_mono) (auto simp: finite_graph_ids)
  then show ?case by auto
qed

subsection \<open>The manifest\<close>

text \<open>
  The module reads \<^verbatim>\<open>.vite/dist/client/.vite/ssr-manifest.json\<close> when it is loaded:
  \<open>file\<close> is the file's text, \<open>None\<close> when the file does not exist. \<^verbatim>\<open>JSON.parse\<close>
  belongs to the language and is a parameter: it answers with the entries of the parsed
  object or raises. Every key is re-keyed to \<^verbatim>\<open>path.join(cwd, ".vite", key)\<close>;
  \<^verbatim>\<open>Object.fromEntries\<close> lets a later entry win over an earlier one with the same key.
  \<open>manifestJson_get\<close> is the lookup \<^verbatim>\<open>manifestJson[module]\<close> among the object's own keys:
  neither the keys nor the names looked up are taken to name a property of
  \<^verbatim>\<open>Object.prototype\<close> (such as \<^verbatim>\<open>constructor\<close>), and the parsed values are taken to be
  arrays of strings, as the declared type of \<^verbatim>\<open>manifestJson\<close> says.
\<close>

type_synonym manifest = "(string \<times> string list) list"

definition manifestJson :: "string \<Rightarrow> manifest \<Rightarrow> manifest" where
  "manifestJson cwd parsed = map (\<lambda>(key, v). (path_join [cwd, ''.vite'', key], v)) parsed"

definition manifestJson_get :: "manifest \<Rightarrow> string \<Rightarrow> string list option" where
  "manifestJson_get m k = map_of (rev m) k"

definition load_preload ::
  "(string \<Rightarrow> error + manifest) \<Rightarrow> string \<Rightarrow> string option \<Rightarrow> error + manifest" where
  "load_preload JSON_parse cwd file =
     (let manifest = (case file of Some text \<Rightarrow> text | None \<Rightarrow> ''{}'')
      in case JSON_parse manifest of
           Inl e \<Rightarrow> Inl e
         | Inr parsed \<Rightarrow> Inr (manifestJson cwd parsed))"

subsection \<open>\<^verbatim>\<open>getDeps\<close>\<close>

definition normalize_module :: "string \<Rightarrow> string" where
  "normalize_module m =
     (if startsWith m ''/@fs/'' then drop 4 m
      else if startsWith m ''file://'' then drop 7 m
      else m)"

text \<open>
  One round of the \<^verbatim>\<open>for\<close> loop over the normalised modules. The state of the loop is
  the array \<open>deps\<close> and the lines written by \<^verbatim>\<open>console.warn\<close> (one per caught exception,
  recorded by the module it names).
\<close>

definition getDeps_step ::
  "manifest \<Rightarrow> moduleGraph option \<Rightarrow> bool \<Rightarrow> string list \<times> string list \<Rightarrow> string
     \<Rightarrow> string list \<times> string list" where
  "getDeps_step mj viteDevServer isProduction st m =
     (let (deps, warned) = st in
      if isProduction then
        (case manifestJson_get mj m of
           Some manifestModules \<Rightarrow> (deps @ manifestModules, warned)
         | None \<Rightarrow> (deps, warned))
      else
        (case viteDevServer of
           None \<Rightarrow> (deps, warned)
         | Some g \<Rightarrow>
             (case collectDepsDev g m [] of
                Inl e \<Rightarrow> (deps, warned @ [m])
              | Inr depsDev \<Rightarrow>
                  if length depsDev > 0 then (deps @ map getOptimizedUrl depsDev, warned)
                  else (deps, warned))))"

definition getDeps ::
  "manifest \<Rightarrow> string list \<Rightarrow> moduleGraph option \<Rightarrow> bool \<Rightarrow> string list \<times> string list" where
  "getDeps mj modules viteDevServer isProduction =
     (let (deps, warned) =
            foldl (getDeps_step mj viteDevServer isProduction) ([], [])
              (map normalize_module modules)
      in (new_Set deps, warned))"

section \<open>The orchestrator (\<^verbatim>\<open>vitePlugin\<close>)\<close>

text \<open>
  Plugins are objects shared by reference: the plugin list holds references, and the
  reload procedure tags an instance after it has pushed it. The store \<open>objects\<close> maps a
  reference to the object's fields. A hook is modelled by what a call of it does as far
  as the orchestrator can tell: it returns or it throws; it is taken not to change the
  plugin list it is handed. \<open>configureVite\<close> hooks are functions on the configuration.

  The build tool, the HTTP framework, the module loader and the file system are outside
  the repository. Each call to them is an \<open>event\<close> appended to the state's \<open>trace\<close>; the
  environment \<open>env\<close> says which calls fail, what the dev server created from a
  configuration is, and what the two plugin registries' factories return.
\<close>

subsection \<open>Data\<close>

text \<open>
  \<open>inlineConfig\<close> holds the options of Vite's \<^verbatim>\<open>InlineConfig\<close> that the sources set
  (\<^verbatim>\<open>build.rollupOptions.input\<close>, \<^verbatim>\<open>build.outDir\<close> and so on; \<open>None\<close> for an option that is
  not set, the Vite plugins by name). A \<open>plugin\<close> has the properties the orchestrator
  reads: \<open>vitePlugin_flag\<close> is \<^verbatim>\<open>_vitePlugin\<close>, and a hook that is absent is \<open>None\<close>.
  The state is the closure of \<^verbatim>\<open>vitePlugin()\<close>: \<open>app\<close> and \<open>stop\<close> tell whether \<open>initExpress\<close>
  has captured the application and the stop callback, \<open>initVite_port\<close> is the port of
  the \<open>InitVite\<close> object once it is built, \<open>templateHtmlPromise\<close> is the promise's
  outcome once it is assigned, \<open>router\<close> lists the middleware mounted on the router, and
  \<open>files\<close> is the scaffold directory as this process has written it.
\<close>

type_synonym ref = nat

datatype outcome = Returns | Throws

record inlineConfig =
  server_middlewareMode :: "bool option"
  appType :: string
  root :: string
  base :: string
  build_rollupOptions_input :: "string list option"
  build_outDir :: "string option"
  build_target :: string
  build_ssrManifest :: "bool option"
  build_ssr :: "bool option"
  optimizeDeps_exclude :: "string list"
  config_plugins :: "string list"

record VitePluginConfig =
  config :: inlineConfig
  clientPluginModules :: "string list"
  serverPluginModules :: "string list"

record plugin =
  name :: string
  port :: "nat option"
  vitePlugin_flag :: bool
  init :: "outcome option"
  postInit :: "outcome option"
  configureVite :: "(VitePluginConfig \<Rightarrow> error + VitePluginConfig) option"
  initVite :: "outcome option"
  postInitVite :: "outcome option"

record devServer =
  moduleGraph_of :: moduleGraph
  transformIndexHtml :: "string \<Rightarrow> string \<Rightarrow> string"

datatype event =
    CreateViteEnvironment "string list" "string list"
  | Build inlineConfig
  | Stop
  | CreateServer inlineConfig
  | RouterUse string
  | AppUse string
  | Import string
  | SsrLoadModule string
  | Init ref
  | PostInit ref
  | InitVite ref
  | PostInitVite ref

text \<open>\<^verbatim>\<open>"plugin" + i\<close> prints the index in decimal.\<close>

fun digits :: "nat \<Rightarrow> string" where
  "digits n = (if n < 10 then [char_of (48 + n)] else digits (n div 10) @ [char_of (48 + n mod 10)])"

text \<open>The template literals of \<^verbatim>\<open>createViteEnvironment\<close> and \<^verbatim>\<open>generateHTMLTemplate\<close>.\<close>

definition indexHtml :: string where
  \<open>indexHtml = ''<!DOCTYPE html>\<newline><html lang="en">\<newline>  <head>\<newline>    <!--app-head-->\<newline>    <script type="module" src="/client.ts"></script>\<newline>  </head>\<newline>  <body>\<newline>    <div id="app"><!--app-html--></div>\<newline>  </body>\<newline></html>''\<close>

definition meta_tags :: string where
  \<open>meta_tags = ''<meta charset="UTF-8" /><meta name="viewport" content="width=device-width, initial-scale=1.0" />''\<close>

record state =
  objects :: "ref \<Rightarrow> plugin"
  plugins :: "ref list"
  vite :: "devServer option"
  router :: "string list"
  isProduction :: bool
  app :: bool
  stop :: bool
  templateHtmlPromise :: "(error + string) option"
  initVite_port :: "nat option"
  files :: "string \<Rightarrow> string option"
  trace :: "event list"

record env =
  argv_build :: bool
  argv_preview :: bool
  cwd :: string
  fails :: "event \<Rightarrow> bool"
  createServer :: "inlineConfig \<Rightarrow> devServer"
  clientPlugins_default :: "ref list"
  serverPlugins_default :: "ref list"
  dist_index_html :: "error + string"

subsection \<open>Effects\<close>

text \<open>
  A function of the orchestrator either returns, \<open>Inr\<close> with the state it leaves, or raises,
  \<open>Inl\<close> with the error and the state as it is at that moment: what the function has
  done to the shared plugin list and to the objects before the exception stays done.
  \<open>andThen\<close> is sequencing under \<^verbatim>\<open>await\<close>: an exception ends the enclosing function.
  \<open>raisedIn st\<close> places a computation that does not touch the state (the fold of the
  configuration hooks) in this setting. \<open>forEach\<close> is a \<^verbatim>\<open>for ... of\<close> loop whose body is
  awaited. \<open>perform\<close> is a call into the outside, \<open>call_hook\<close> a call of a plugin's hook.
\<close>

definition andThen :: "'e + 'a \<Rightarrow> ('a \<Rightarrow> 'e + 'b) \<Rightarrow> 'e + 'b" where
  "andThen r f = (case r of Inl e \<Rightarrow> Inl e | Inr x \<Rightarrow> f x)"

definition raisedIn :: "state \<Rightarrow> error + 'a \<Rightarrow> error \<times> state + 'a" where
  "raisedIn st r = (case r of Inl e \<Rightarrow> Inl (e, st) | Inr x \<Rightarrow> Inr x)"

fun forEach ::
  "('a \<Rightarrow> state \<Rightarrow> error \<times> state + state) \<Rightarrow> 'a list \<Rightarrow> state \<Rightarrow> error \<times> state + state" where
  "forEach f [] st = Inr st"
| "forEach f (x # xs) st = andThen (f x st) (forEach f xs)"

definition perform :: "env \<Rightarrow> event \<Rightarrow> state \<Rightarrow> error \<times> state + state" where
  "perform env e st =
     (if fails env e then Inl (ExternalError, st) else Inr (st\<lparr>trace := trace st @ [e]\<rparr>))"

definition call_hook :: "event \<Rightarrow> outcome \<Rightarrow> state \<Rightarrow> error \<times> state + state" where
  "call_hook e h st =
     (case h of Throws \<Rightarrow> Inl (HookError, st) | Returns \<Rightarrow> Inr (st\<lparr>trace := trace st @ [e]\<rparr>))"

text \<open>\<^verbatim>\<open>"configureVite" in plugin || "initVite" in plugin\<close>.\<close>

definition pluginHasViteHooks :: "plugin \<Rightarrow> bool" where
  "pluginHasViteHooks p = (configureVite p \<noteq> None \<or> initVite p \<noteq> None)"

subsection \<open>\<^verbatim>\<open>createViteEnvironment\<close>\<close>

text \<open>
  The five files written to \<^verbatim>\<open>./.vite\<close>. \<open>moduleMap\<close> is \<^verbatim>\<open>serverModuleMap\<close> and
  \<^verbatim>\<open>clientModuleMap\<close>: the keys \<^verbatim>\<open>plugin0\<close>, \<^verbatim>\<open>plugin1\<close>, ... are distinct, so the object keeps
  the modules in their order.
\<close>

definition moduleMap :: "string list \<Rightarrow> (string \<times> string) list" where
  "moduleMap pluginModules =
     map (\<lambda>(i, p). (''plugin'' @ digits i, p)) (enumerate 0 pluginModules)"

definition importLines :: "(string \<times> string) list \<Rightarrow> string" where
  "importLines m =
     join_str (map (\<lambda>(key, v). ''import '' @ key @ '' from '' @ [CHR 0x27] @ v @ [CHR 0x27] @ '';'') m)
       ''\<newline>''"

definition serverTs :: "string list \<Rightarrow> string" where
  "serverTs serverModules =
     (let serverModuleMap = moduleMap serverModules in
      importLines serverModuleMap
      @ ''\<newline>\<newline>const getServerPlugins = () => [''
      @ join_str (map (\<lambda>(key, v). key @ ''()'') serverModuleMap) '', ''
      @ ''];\<newline>\<newline>\<newline>export default getServerPlugins;'')"

definition clientPluginsTs :: "string list \<Rightarrow> string" where
  "clientPluginsTs clientModules =
     (let clientModuleMap = moduleMap clientModules in
      importLines clientModuleMap
      @ ''\<newline>\<newline>const getClientPlugins = () => [''
      @ join_str (map (\<lambda>(key, v). key @ ''()'') clientModuleMap) '', ''
      @ ''];\<newline>\<newline>export default getClientPlugins;'')"

definition clientTs :: string where
  "clientTs = ''import { initPlugins } from '' @ [CHR 0x27] @ ''@heoplatform/base-plugin-system''
     @ [CHR 0x27] @ '';\<newline>import getClientPlugins from '' @ [CHR 0x27] @ ''./clientPlugins.ts''
     @ [CHR 0x27] @ '';\<newline>initPlugins(getClientPlugins());''"

definition createViteEnvironment ::
  "env \<Rightarrow> string list \<Rightarrow> string list \<Rightarrow> state \<Rightarrow> error \<times> state + state" where
  "createViteEnvironment env serverModules clientModules st =
     andThen (perform env (CreateViteEnvironment serverModules clientModules) st)
       (\<lambda>st. Inr (st\<lparr>files := (files st)
          (''./.vite/vite.config.js'' \<mapsto> ''export default {}'',
           ''./.vite/index.html'' \<mapsto> indexHtml,
           ''./.vite/client.ts'' \<mapsto> clientTs,
           ''./.vite/clientPlugins.ts'' \<mapsto> clientPluginsTs clientModules,
           ''./.vite/server.ts'' \<mapsto> serverTs serverModules)\<rparr>))"

subsection \<open>Configuration\<close>

text \<open>
  \<open>applyHooks\<close> is the loop \<^verbatim>\<open>for (const hook of configureViteHooks) viteConfig = await hook(viteConfig)\<close>
  of \<^verbatim>\<open>getViteDevConfig\<close> and \<^verbatim>\<open>getViteProdConfig\<close>; \<open>devConfig\<close> and \<open>prodConfig ssr\<close> are the
  configurations the two functions start from.
\<close>

fun applyHooks ::
  "(VitePluginConfig \<Rightarrow> error + VitePluginConfig) list \<Rightarrow> VitePluginConfig
     \<Rightarrow> error + VitePluginConfig" where
  "applyHooks [] viteConfig = Inr viteConfig"
| "applyHooks (hook # hooks) viteConfig = andThen (hook viteConfig) (applyHooks hooks)"

definition devConfig :: VitePluginConfig where
  "devConfig =
     \<lparr>config = \<lparr>server_middlewareMode = Some True, appType = ''custom'', root = ''./.vite'',
         base = ''/'', build_rollupOptions_input = None, build_outDir = None,
         build_target = ''esnext'', build_ssrManifest = None, build_ssr = None,
         optimizeDeps_exclude = [''express'', ''@heoplatform/vite-plugin''],
         config_plugins = [''vite-plugin-reload'']\<rparr>,
       clientPluginModules = [], serverPluginModules = []\<rparr>"

definition getViteDevConfig ::
  "(VitePluginConfig \<Rightarrow> error + VitePluginConfig) list \<Rightarrow> error + VitePluginConfig" where
  "getViteDevConfig configureViteHooks = applyHooks configureViteHooks devConfig"

definition prodConfig :: "bool \<Rightarrow> VitePluginConfig" where
  "prodConfig ssr =
     \<lparr>config = \<lparr>server_middlewareMode = None, appType = ''custom'', root = ''./.vite'',
         base = ''/'',
         build_rollupOptions_input =
           (if ssr then Some [''./.vite/server.ts'', ''./.vite/client.ts'', ''./.vite/clientPlugins.ts'']
            else None),
         build_outDir = Some (if ssr then ''./dist/server'' else ''./dist/client''),
         build_target = ''esnext'', build_ssrManifest = Some (\<not> ssr), build_ssr = Some ssr,
         optimizeDeps_exclude = [''express''],
         config_plugins = []\<rparr>,
       clientPluginModules = [], serverPluginModules = []\<rparr>"

definition getViteProdConfig ::
  "bool \<Rightarrow> (VitePluginConfig \<Rightarrow> error + VitePluginConfig) list \<Rightarrow> error + VitePluginConfig" where
  "getViteProdConfig ssr configureViteHooks = applyHooks configureViteHooks (prodConfig ssr)"

subsection \<open>Templates\<close>

text \<open>
  \<open>readTemplate\<close> is the first part of \<^verbatim>\<open>internalGenerateHTMLTemplate\<close>, which obtains the
  template: from the shell file through the dev server's \<^verbatim>\<open>transformIndexHtml\<close> when there
  is a dev server, from the cached promise otherwise, and the empty string when there is
  neither. \<open>splitTemplate\<close> is the second part. Reading index 1 of an array with one
  element gives \<^verbatim>\<open>undefined\<close>: calling \<^verbatim>\<open>split\<close> on it raises a \<^verbatim>\<open>TypeError\<close>, and appending
  it to a string appends the text \<^verbatim>\<open>undefined\<close>.
\<close>

definition splitTemplate :: "string \<Rightarrow> string \<Rightarrow> string \<Rightarrow> error + string" where
  "splitTemplate template head body =
     (let headSplit = split_str template ''<!--app-head-->'';
          piece1 = hd headSplit
      in if length headSplit < 2 then Inl TypeError
         else
           let bodySplit = split_str (headSplit ! 1) ''<!--app-html-->'';
               piece2 = hd bodySplit;
               piece3 = (if length bodySplit < 2 then ''undefined'' else bodySplit ! 1)
           in Inr (piece1 @ head @ piece2 @ body @ piece3))"

definition readTemplate :: "state \<Rightarrow> string \<Rightarrow> error + string" where
  "readTemplate st url =
     (case vite st of
        Some v \<Rightarrow>
          (case files st ''./.vite/index.html'' of
             None \<Rightarrow> Inl ExternalError
           | Some unProcessedTemplate \<Rightarrow> Inr (transformIndexHtml v url unProcessedTemplate))
      | None \<Rightarrow>
          (case templateHtmlPromise st of Some p \<Rightarrow> p | None \<Rightarrow> Inr []))"

definition internalGenerateHTMLTemplate ::
  "state \<Rightarrow> string \<Rightarrow> string \<Rightarrow> string \<Rightarrow> error + string" where
  "internalGenerateHTMLTemplate st url head body =
     andThen (readTemplate st url) (\<lambda>template. splitTemplate template head body)"

definition generateHTMLTemplate :: "state \<Rightarrow> string \<Rightarrow> string \<Rightarrow> string \<Rightarrow> error + string" where
  "generateHTMLTemplate st url head body = internalGenerateHTMLTemplate st url (meta_tags @ head) body"

definition generateHeadContent :: "state \<Rightarrow> error + string" where
  "generateHeadContent st =
     andThen (internalGenerateHTMLTemplate st ''/'' [] [])
       (\<lambda>htmlTemplate.
          let afterHead = split_str htmlTemplate ''<head>''
          in if length afterHead < 2 then Inl TypeError
             else Inr (hd (split_str (afterHead ! 1) ''</head>'')))"

subsection \<open>Hooks and the reload sub-procedure\<close>

text \<open>
  \<open>getRelevantHooks\<close> returns the three hook lists; an \<^verbatim>\<open>initVite\<close> or \<^verbatim>\<open>postInitVite\<close> hook
  comes with the reference of its plugin, which names the call in the trace. \<open>purge\<close>
  is the loop \<^verbatim>\<open>for (let i = plugins.length - 1; i >= 0; i--)\<close> that splices the tagged
  entries out, \<open>purge objs (Suc i)\<close> being the round for index \<open>i\<close>. \<open>loadModule\<close> is the
  conditional that imports a built registry in production and asks the dev server for
  its source otherwise. \<open>tagAndInit\<close> and \<open>runPostInit\<close> are the bodies of the two pairs of
  loops of \<^verbatim>\<open>reloadPlugins\<close>.
\<close>

definition getRelevantHooks ::
  "state \<Rightarrow> (VitePluginConfig \<Rightarrow> error + VitePluginConfig) list
     \<times> (ref \<times> outcome) list \<times> (ref \<times> outcome) list" where
  "getRelevantHooks st =
     (let relevantPlugins = filter (\<lambda>r. pluginHasViteHooks (objects st r)) (plugins st)
      in (List.map_filter (\<lambda>r. configureVite (objects st r)) relevantPlugins,
          List.map_filter (\<lambda>r. map_option (Pair r) (initVite (objects st r))) relevantPlugins,
          List.map_filter (\<lambda>r. map_option (Pair r) (postInitVite (objects st r))) relevantPlugins))"

fun purge :: "(ref \<Rightarrow> plugin) \<Rightarrow> nat \<Rightarrow> ref list \<Rightarrow> ref list" where
  "purge objs 0 ps = ps"
| "purge objs (Suc i) ps =
     purge objs i (if vitePlugin_flag (objs (ps ! i)) then take i ps @ drop (Suc i) ps else ps)"

definition loadModule ::
  "env \<Rightarrow> string \<Rightarrow> string \<Rightarrow> state \<Rightarrow> error \<times> state + state" where
  "loadModule env built source st =
     (if isProduction st then perform env (Import (path_join [cwd env, built])) st
      else case vite st of
             None \<Rightarrow> Inl (TypeError, st)
           | Some v \<Rightarrow> perform env (SsrLoadModule source) st)"

definition tagAndInit :: "ref \<Rightarrow> state \<Rightarrow> error \<times> state + state" where
  "tagAndInit r st =
     (let st' = st\<lparr>objects := (objects st)(r := (objects st r)\<lparr>vitePlugin_flag := True\<rparr>)\<rparr>
      in case init (objects st' r) of
           None \<Rightarrow> Inr st'
         | Some h \<Rightarrow> call_hook (Init r) h st')"

definition runPostInit :: "ref \<Rightarrow> state \<Rightarrow> error \<times> state + state" where
  "runPostInit r st =
     (case postInit (objects st r) of
        None \<Rightarrow> Inr st
      | Some h \<Rightarrow> call_hook (PostInit r) h st)"

definition reloadPlugins :: "env \<Rightarrow> state \<Rightarrow> error \<times> state + state" where
  "reloadPlugins env st =
     (let st = st\<lparr>plugins := purge (objects st) (length (plugins st)) (plugins st)\<rparr> in
      andThen (loadModule env ''./.vite/dist/server/clientPlugins.js'' ''/clientPlugins.ts'' st) (\<lambda>st.
      let clientPluginManager = clientPlugins_default env in
      andThen (loadModule env ''./.vite/dist/server/server.js'' ''/server.ts'' st) (\<lambda>st.
      let serverPluginManager = serverPlugins_default env;
          st = st\<lparr>plugins := (plugins st @ clientPluginManager) @ serverPluginManager\<rparr> in
      andThen (forEach tagAndInit clientPluginManager st) (\<lambda>st.
      andThen (forEach tagAndInit serverPluginManager st) (\<lambda>st.
      andThen (forEach runPostInit clientPluginManager st) (\<lambda>st.
      forEach runPostInit serverPluginManager st))))))"

subsection \<open>The lifecycle hooks of the plugin\<close>

definition restartServer ::
  "env \<Rightarrow> (VitePluginConfig \<Rightarrow> error + VitePluginConfig) list option \<Rightarrow> state
     \<Rightarrow> error \<times> state + state" where
  "restartServer env hooks st =
     (let configureViteHooks = (case hooks of Some hs \<Rightarrow> hs | None \<Rightarrow> fst (getRelevantHooks st)) in
      andThen
        (if \<not> isProduction st then
           andThen (raisedIn st (getViteDevConfig configureViteHooks)) (\<lambda>viteConfig.
           andThen (createViteEnvironment env (serverPluginModules viteConfig)
                      (clientPluginModules viteConfig) st) (\<lambda>st.
           andThen (perform env (CreateServer (config viteConfig)) st) (\<lambda>st.
           let st = st\<lparr>vite := Some (createServer env (config viteConfig))\<rparr> in
           andThen (perform env (RouterUse ''vite.middlewares'') st) (\<lambda>st.
           Inr (st\<lparr>router := router st @ [''vite.middlewares'']\<rparr>)))))
         else
           andThen (perform env (Import ''compression'') st) (\<lambda>st.
           andThen (perform env (Import ''sirv'') st) (\<lambda>st.
           andThen (perform env (RouterUse ''compression()'') st) (\<lambda>st.
           let st = st\<lparr>router := router st @ [''compression()'']\<rparr> in
           andThen (perform env (RouterUse ''sirv(./.vite/dist/client)'') st) (\<lambda>st.
           Inr (st\<lparr>router := router st @ [''sirv(./.vite/dist/client)'']\<rparr>))))))
        (reloadPlugins env))"

definition initExpress :: "state \<Rightarrow> state" where
  "initExpress st =
     (let expressPlugin = find (\<lambda>r. name (objects st r) = ''express'') (plugins st);
          thePort = (case expressPlugin of
                       None \<Rightarrow> 5173
                     | Some r \<Rightarrow> (case port (objects st r) of None \<Rightarrow> 5173 | Some p \<Rightarrow> p))
      in st\<lparr>app := True, stop := True, initVite_port := Some thePort\<rparr>)"

definition callStop :: "env \<Rightarrow> state \<Rightarrow> error \<times> state + state" where
  "callStop env st = (if stop st then perform env Stop st else Inl (TypeError, st))"

definition postInitExpress :: "env \<Rightarrow> state \<Rightarrow> error \<times> state + state" where
  "postInitExpress env st =
     (let (configureViteHooks, initViteHooks, postInitViteHooks) = getRelevantHooks st in
      if argv_build env then
        andThen (raisedIn st (getViteProdConfig False configureViteHooks)) (\<lambda>viteConfig.
        andThen (createViteEnvironment env (serverPluginModules viteConfig)
                   (clientPluginModules viteConfig) st) (\<lambda>st.
        andThen (perform env (Build (config viteConfig)) st) (\<lambda>st.
        andThen (raisedIn st (getViteProdConfig True configureViteHooks)) (\<lambda>viteConfigSSR.
        andThen (createViteEnvironment env (serverPluginModules viteConfigSSR)
                   (clientPluginModules viteConfigSSR) st) (\<lambda>st.
        andThen (perform env (Build (config viteConfigSSR)) st) (\<lambda>st.
        callStop env st))))))
      else
        let st = (if argv_preview env then st\<lparr>isProduction := True\<rparr> else st) in
        andThen (restartServer env (Some configureViteHooks) st) (\<lambda>st.
        andThen (if app st then perform env (AppUse ''router'') st else Inl (TypeError, st)) (\<lambda>st.
        let st = st\<lparr>templateHtmlPromise :=
                       (if isProduction st then Some (dist_index_html env) else None)\<rparr> in
        andThen (forEach (\<lambda>(r, h). call_hook (InitVite r) h) initViteHooks st) (\<lambda>st.
        forEach (\<lambda>(r, h). call_hook (PostInitVite r) h) postInitViteHooks st))))"

text \<open>
  The accessors of the \<open>InitVite\<close> object that \<open>initExpress\<close> builds. Its \<^verbatim>\<open>getDeps\<close> is
  \<^verbatim>\<open>(modules) => getDeps(modules, vite)\<close>; \<open>mj\<close> is the manifest \<^verbatim>\<open>preload.ts\<close> has loaded.
\<close>

definition InitVite_mode :: "state \<Rightarrow> string" where
  "InitVite_mode st = (if isProduction st then ''prod'' else ''dev'')"

definition InitVite_getDeps :: "manifest \<Rightarrow> state \<Rightarrow> string list \<Rightarrow> string list \<times> string list" where
  "InitVite_getDeps mj st modules = getDeps mj modules (map_option moduleGraph_of (vite st)) False"

text \<open>
  The closure variables of \<^verbatim>\<open>vitePlugin()\<close> when the plugin object is created, and the
  effect of its \<^verbatim>\<open>init\<close> hook.
\<close>

definition vitePlugin :: "bool \<Rightarrow> (ref \<Rightarrow> plugin) \<Rightarrow> state" where
  "vitePlugin NODE_ENV_production objs =
     \<lparr>objects = objs, plugins = [], vite = None, router = [],
      isProduction = NODE_ENV_production, app = False, stop = False,
      templateHtmlPromise = None, initVite_port = None, files = (\<lambda>p. None), trace = []\<rparr>"

definition vitePlugin_init :: "ref list \<Rightarrow> state \<Rightarrow> state" where
  "vitePlugin_init ps st = st\<lparr>plugins := ps\<rparr>"

section \<open>Properties of the traversal\<close>

text \<open>
  The graph the traversal runs on is the build tool's: a node is filed under its own
  identifier (\<open>well_keyed\<close>). \<open>is_node g k\<close> holds of the identifiers the traversal can
  collect, \<open>imports_of g k\<close> lists the collectable imports of \<open>k\<close>, and \<open>reach g e\<close> is
  reachability from the entry \<open>e\<close> along imports.
\<close>

declare collectDepsDev.simps [simp del]

definition well_keyed :: "moduleGraph \<Rightarrow> bool" where
  "well_keyed g = list_all (\<lambda>(k, m). case node_id m of None \<Rightarrow> True | Some i \<Rightarrow> i = [] \<or> i = k) (idToModuleMap g)"

definition never_throws :: "moduleGraph \<Rightarrow> bool" where
  "never_throws g = (\<forall>i. \<not> throwsOn g i)"

definition is_node :: "moduleGraph \<Rightarrow> string \<Rightarrow> bool" where
  "is_node g k = (case map_of (idToModuleMap g) k of None \<Rightarrow> False | Some m \<Rightarrow> k \<noteq> [] \<and> node_id m = Some k)"

definition imports_of :: "moduleGraph \<Rightarrow> string \<Rightarrow> string list" where
  "imports_of g k = (case map_of (idToModuleMap g) k of None \<Rightarrow> [] | Some m \<Rightarrow> filter (is_node g) (List.map_filter (\<lambda>d. d) (importedModules m)))"

inductive reach :: "moduleGraph \<Rightarrow> string \<Rightarrow> string \<Rightarrow> bool" for g :: moduleGraph and e :: string where
  reach_entry: "is_node g e \<Longrightarrow> reach g e e"
| reach_import: "reach g e k \<Longrightarrow> d \<in> set (imports_of g k) \<Longrightarrow> reach g e d"

lemma set_imports_of:
  "d \<in> set (imports_of g k) \<longleftrightarrow>
     (\<exists>m. map_of (idToModuleMap g) k = Some m \<and> Some d \<in> set (importedModules m) \<and> is_node g d)"
proof -
  have "set (List.map_filter (\<lambda>d. d) xs) = {y. Some y \<in> set xs}" for xs :: "string option list"
    by (induction xs) (auto simp: List.map_filter_simps split: option.splits)
  then show ?thesis
    by (cases "map_of (idToModuleMap g) k") (auto simp: imports_of_def)
qed

lemma well_keyedD:
  "well_keyed g \<Longrightarrow> map_of (idToModuleMap g) k = Some m \<Longrightarrow> node_id m = Some i \<Longrightarrow> i \<noteq> [] \<Longrightarrow> i = k"
  by (auto simp: well_keyed_def list_all_iff dest!: map_of_SomeD)

lemma getModuleById_nothrow: "never_throws g \<Longrightarrow> getModuleById g k = Inr (map_of (idToModuleMap g) k)"
  by (simp add: getModuleById_def never_throws_def)

lemma collectDepsDev_returns:
  "never_throws g \<Longrightarrow> \<exists>r. collectDepsDev g e seen = Inr r"
  "never_throws g \<Longrightarrow> \<exists>r. collectDepsDev_imports g ds seen = Inr r"
proof (induction g e seen and g ds seen rule: collectDepsDev_collectDepsDev_imports.induct)
  case (1 g entryId seen)
  then show ?case
    by (subst collectDepsDev.simps) (auto simp: getModuleById_nothrow split: option.splits)
next
  case (2 g seen)
  then show ?case by simp
next
  case (3 g dep deps seen)
  then show ?case by (fastforce split: option.splits sum.splits)
qed

lemma collectDepsDev_grows:
  "collectDepsDev g e seen = Inr r \<Longrightarrow> set seen \<subseteq> set r \<and> (distinct seen \<longrightarrow> distinct r)"
  "collectDepsDev_imports g ds seen = Inr r' \<Longrightarrow> set seen \<subseteq> set r' \<and> (distinct seen \<longrightarrow> distinct r')"
proof (induction g e seen and g ds seen arbitrary: r and r'
    rule: collectDepsDev_collectDepsDev_imports.induct)
  case (1 g entryId seen)
  from "1.prems" show ?case
    by (subst (asm) collectDepsDev.simps)
      (auto simp: Set_add_def split: sum.splits option.splits if_splits dest!: "1.IH")
next
  case (2 g seen)
  then show ?case by simp
next
  case (3 g dep deps seen)
  show ?case
  proof (cases "case dep of None \<Rightarrow> True | Some d \<Rightarrow> d = []")
    case True
    with "3.prems" have "collectDepsDev_imports g deps seen = Inr r'"
      by (auto split: option.splits)
    with True "3.IH"(1,2) show ?thesis by (auto split: option.splits)
  next
    case False
    then obtain d where d: "dep = Some d" "d \<noteq> []" by (auto split: option.splits)
    with "3.prems" obtain s where s: "collectDepsDev g d seen = Inr s"
      and r: "collectDepsDev_imports g deps s = Inr r'"
      by (auto split: sum.splits)
    from "3.IH"(3)[OF d s] "3.IH"(4)[OF d s r] show ?thesis by auto
  qed
qed

text \<open>Soundness: whatever the traversal adds is reachable.\<close>

lemma reach_via:
  assumes "reach g d x" "is_node g e" "d \<in> set (imports_of g e)"
  shows "reach g e x"
  using assms
proof (induction rule: reach.induct)
  case reach_entry
  then show ?case by (meson reach.intros)
next
  case (reach_import k d')
  then show ?case by (meson reach.intros)
qed

lemma collectDepsDev_sound:
  "well_keyed g \<Longrightarrow> collectDepsDev g e seen = Inr r \<Longrightarrow> x \<in> set r \<Longrightarrow> x \<notin> set seen \<Longrightarrow> reach g e x"
  "well_keyed g \<Longrightarrow> collectDepsDev_imports g ds seen = Inr r' \<Longrightarrow> x \<in> set r' \<Longrightarrow> x \<notin> set seen
     \<Longrightarrow> \<exists>d. Some d \<in> set ds \<and> reach g d x"
proof (induction g e seen and g ds seen arbitrary: r x and r' x
    rule: collectDepsDev_collectDepsDev_imports.induct)
  case (1 g entryId seen)
  from "1.prems"(2,3,4) obtain m i where
    m: "getModuleById g entryId = Inr (Some m)" and i: "node_id m = Some i"
    and new: "i \<noteq> []" "i \<notin> set seen"
    and r: "collectDepsDev_imports g (importedModules m) (Set_add seen i) = Inr r"
    by (subst (asm) collectDepsDev.simps) (auto split: sum.splits option.splits if_splits)
  from m have lk: "map_of (idToModuleMap g) entryId = Some m"
    by (auto simp: getModuleById_def split: if_splits)
  with i new "1.prems"(1) have ie: "i = entryId" by (auto dest: well_keyedD)
  with lk i new have node: "is_node g entryId" by (simp add: is_node_def)
  show ?case
  proof (cases "x = entryId")
    case True
    with node show ?thesis by (simp add: reach_entry)
  next
    case False
    with "1.prems"(4) ie have "x \<notin> set (Set_add seen i)" by (simp add: Set_add_def)
    from "1.IH"[OF m refl i _ "1.prems"(1) r "1.prems"(3) this] new
    obtain d where d: "Some d \<in> set (importedModules m)" "reach g d x" by auto
    from d(2) have "is_node g d" by (induction rule: reach.induct) (auto simp: set_imports_of)
    with d(1) lk have "d \<in> set (imports_of g entryId)"
      by (auto simp: set_imports_of)
    with d(2) node show ?thesis by (rule reach_via)
  qed
next
  case (2 g seen)
  then show ?case by simp
next
  case (3 g dep deps seen)
  show ?case
  proof (cases "case dep of None \<Rightarrow> True | Some d \<Rightarrow> d = []")
    case True
    with "3.prems" have "collectDepsDev_imports g deps seen = Inr r'"
      by (auto split: option.splits)
    with True "3.IH"(1,2) "3.prems" show ?thesis by (fastforce split: option.splits)
  next
    case False
    then obtain d where d: "dep = Some d" "d \<noteq> []" by (auto split: option.splits)
    with "3.prems" obtain s where s: "collectDepsDev g d seen = Inr s"
      and r: "collectDepsDev_imports g deps s = Inr r'"
      by (auto split: sum.splits)
    show ?thesis
    proof (cases "x \<in> set s")
      case True
      from "3.IH"(3)[OF d "3.prems"(1) s True "3.prems"(4)] d show ?thesis by auto
    next
      case False
      from "3.IH"(4)[OF d s "3.prems"(1) r "3.prems"(3) False] show ?thesis by auto
    qed
  qed
qed

text \<open>Completeness: what the traversal adds has all its imports in the result.\<close>

lemma collectDepsDev_closed:
  "well_keyed g \<Longrightarrow> collectDepsDev g e seen = Inr r \<Longrightarrow>
     (is_node g e \<longrightarrow> e \<in> set r) \<and> (\<forall>x \<in> set r - set seen. set (imports_of g x) \<subseteq> set r)"
  "well_keyed g \<Longrightarrow> collectDepsDev_imports g ds seen = Inr r' \<Longrightarrow>
     (\<forall>d. Some d \<in> set ds \<and> is_node g d \<longrightarrow> d \<in> set r') \<and>
     (\<forall>x \<in> set r' - set seen. set (imports_of g x) \<subseteq> set r')"
proof (induction g e seen and g ds seen arbitrary: r and r'
    rule: collectDepsDev_collectDepsDev_imports.induct)
  case (1 g entryId seen)
  show ?case
  proof (cases "is_node g entryId \<and> entryId \<notin> set seen")
    case False
    have "r = seen \<and> (is_node g entryId \<longrightarrow> entryId \<in> set seen)"
    proof (cases "is_node g entryId")
      case True
      with False have "entryId \<in> set seen" by simp
      with True "1.prems"(2) show ?thesis
        by (subst (asm) collectDepsDev.simps)
          (auto simp: is_node_def getModuleById_def split: option.splits if_splits)
    next
      case False
      with "1.prems" show ?thesis
        by (subst (asm) collectDepsDev.simps)
          (auto simp: is_node_def getModuleById_def split: option.splits if_splits sum.splits
            dest: well_keyedD)
    qed
    then show ?thesis by auto
  next
    case True
    then obtain m where lk: "map_of (idToModuleMap g) entryId = Some m"
      and i: "node_id m = Some entryId" and ne: "entryId \<noteq> []"
      by (auto simp: is_node_def split: option.splits)
    from "1.prems"(2) True lk i ne
    have gm: "getModuleById g entryId = Inr (Some m)"
      and r: "collectDepsDev_imports g (importedModules m) (Set_add seen entryId) = Inr r"
      by (subst (asm) collectDepsDev.simps,
          auto simp: getModuleById_def split: if_splits sum.splits)+
    from True ne have cond: "\<not> (entryId = [] \<or> entryId \<in> set seen)" by simp
    note IH = "1.IH"[OF gm refl i cond "1.prems"(1) r]
    from collectDepsDev_grows(2)[OF r] have "entryId \<in> set r" by (auto simp: Set_add_def split: if_splits)
    moreover have "set (imports_of g x) \<subseteq> set r" if "x \<in> set r - set seen" for x
    proof (cases "x = entryId")
      case True
      with IH lk show ?thesis by (auto simp: set_imports_of)
    next
      case False
      with that have "x \<in> set r - set (Set_add seen entryId)" by (auto simp: Set_add_def)
      with IH show ?thesis by blast
    qed
    ultimately show ?thesis by blast
  qed
next
  case (2 g seen)
  then show ?case by simp
next
  case (3 g dep deps seen)
  show ?case
  proof (cases "case dep of None \<Rightarrow> True | Some d \<Rightarrow> d = []")
    case True
    with "3.prems" have r: "collectDepsDev_imports g deps seen = Inr r'"
      by (auto split: option.splits)
    have "\<not> is_node g d" if "dep = Some d" for d
      using that True by (simp add: is_node_def split: option.splits)
    moreover from True "3.IH"(1,2) "3.prems"(1) r
    have "(\<forall>d. Some d \<in> set deps \<and> is_node g d \<longrightarrow> d \<in> set r') \<and>
       (\<forall>x \<in> set r' - set seen. set (imports_of g x) \<subseteq> set r')"
      by (cases dep) auto
    ultimately show ?thesis by auto
  next
    case False
    then obtain d where d: "dep = Some d" "d \<noteq> []" by (auto split: option.splits)
    with "3.prems" obtain s where s: "collectDepsDev g d seen = Inr s"
      and r: "collectDepsDev_imports g deps s = Inr r'"
      by (auto split: sum.splits)
    note IH1 = "3.IH"(3)[OF d "3.prems"(1) s]
    note IH2 = "3.IH"(4)[OF d s "3.prems"(1) r]
    from collectDepsDev_grows(2)[OF r] have sub: "set s \<subseteq> set r'" by simp
    have "d' \<in> set r'" if "Some d' \<in> set (dep # deps)" "is_node g d'" for d'
      using that d IH1 IH2 sub by auto
    moreover have "set (imports_of g x) \<subseteq> set r'" if "x \<in> set r' - set seen" for x
    proof (cases "x \<in> set s")
      case True
      with that IH1 have "set (imports_of g x) \<subseteq> set s" by blast
      with sub show ?thesis by blast
    next
      case False
      with that IH2 show ?thesis by blast
    qed
    ultimately show ?thesis by blast
  qed
qed

lemma collectDepsDev_reach:
  assumes "well_keyed g" "never_throws g"
  shows "\<exists>seen. collectDepsDev g e [] = Inr seen \<and> distinct seen \<and> set seen = {i. reach g e i}"
proof -
  from collectDepsDev_returns(1)[OF assms(2)] obtain r where r: "collectDepsDev g e [] = Inr r" by blast
  from collectDepsDev_grows(1)[OF r] have "distinct r" by simp
  moreover have "x \<in> set r" if "reach g e x" for x
    using that
  proof (induction rule: reach.induct)
    case reach_entry
    with collectDepsDev_closed(1)[OF assms(1) r] show ?case by simp
  next
    case (reach_import k d)
    with collectDepsDev_closed(1)[OF assms(1) r] show ?case by auto
  qed
  moreover have "reach g e x" if "x \<in> set r" for x
    using collectDepsDev_sound(1)[OF assms(1) r that] by simp
  ultimately show ?thesis using r by auto
qed

section \<open>Properties of \<^verbatim>\<open>getDeps\<close>\<close>

lemma foldl_Set_add:
  "distinct acc \<Longrightarrow> distinct (foldl Set_add acc xs) \<and> set (foldl Set_add acc xs) = set acc \<union> set xs"
  by (induction xs arbitrary: acc) (auto simp: Set_add_def)

lemma new_Set_props: "distinct (new_Set xs)" "set (new_Set xs) = set xs"
  using foldl_Set_add[of "[]" xs] by (simp_all add: new_Set_def)

definition dev_contribution :: "moduleGraph \<Rightarrow> string \<Rightarrow> string list" where
  "dev_contribution g m = (case collectDepsDev g m [] of Inl e \<Rightarrow> [] | Inr s \<Rightarrow> map getOptimizedUrl s)"

lemma getDeps_step_dev:
  "getDeps_step mj (Some g) False (deps, warned) m =
     (deps @ dev_contribution g m, warned @ (if isl (collectDepsDev g m []) then [m] else []))"
  by (auto simp: getDeps_step_def dev_contribution_def split: sum.splits)

lemma foldl_getDeps_step_dev:
  "foldl (getDeps_step mj (Some g) False) (deps, warned) ms =
     (deps @ concat (map (dev_contribution g) ms),
      warned @ filter (\<lambda>m. isl (collectDepsDev g m [])) ms)"
  by (induction ms arbitrary: deps warned) (simp_all add: getDeps_step_dev)

lemma getDeps_dev:
  "getDeps mj modules (Some g) False =
     (new_Set (concat (map (dev_contribution g) (map normalize_module modules))),
      filter (\<lambda>m. isl (collectDepsDev g m [])) (map normalize_module modules))"
  by (simp add: getDeps_def foldl_getDeps_step_dev)

lemma getDeps_step_prod:
  "getDeps_step mj v True (deps, warned) m =
     (deps @ (case manifestJson_get mj m of Some ms \<Rightarrow> ms | None \<Rightarrow> []), warned)"
  by (auto simp: getDeps_step_def split: option.splits)

lemma foldl_getDeps_step_prod:
  "foldl (getDeps_step mj v True) (deps, warned) ms =
     (deps @ concat (map (\<lambda>m. case manifestJson_get mj m of Some ms \<Rightarrow> ms | None \<Rightarrow> []) ms), warned)"
  by (induction ms arbitrary: deps warned) (simp_all add: getDeps_step_prod)

lemma getDeps_prod:
  "getDeps mj modules v True =
     (new_Set (concat (map (\<lambda>m. case manifestJson_get mj m of Some ms \<Rightarrow> ms | None \<Rightarrow> [])
        (map normalize_module modules))), [])"
  by (simp add: getDeps_def foldl_getDeps_step_prod)

lemma getDeps_no_server:
  "getDeps mj modules None False = ([], [])"
proof -
  have "foldl (getDeps_step mj None False) st ms = st" for st ms
    by (induction ms arbitrary: st) (auto simp: getDeps_step_def split: prod.splits)
  then show ?thesis by (simp add: getDeps_def new_Set_def)
qed

definition cyclic_graph :: moduleGraph where
  "cyclic_graph =
     \<lparr>idToModuleMap =
        [(''/src/A.ts'', \<lparr>node_id = Some ''/src/A.ts'', importedModules = [Some ''/src/B.ts'']\<rparr>),
         (''/src/B.ts'', \<lparr>node_id = Some ''/src/B.ts'',
                          importedModules = [Some ''/src/A.ts'', Some ''/src/C.ts'']\<rparr>),
         (''/src/C.ts'', \<lparr>node_id = Some ''/src/C.ts'', importedModules = []\<rparr>)],
      throwsOn = (\<lambda>i. i = ''/src/bad.ts'')\<rparr>"

text \<open>
  C6. On every module graph, with or without cycles, the development traversal returns:
  \<open>collectDepsDev\<close> is a total function, which the termination proof above establishes,
  and on a backend that does not raise it yields \<open>Inr\<close>. From an entry it collects
  exactly the identifiers reachable from that entry, each once (an identifier already in
  \<open>seen\<close> is not entered again), and the list \<open>getDeps\<close> returns holds the rewritten URL of
  every identifier reachable from an entry, without repetition. The witness is the graph
  \<open>A \<rightarrow> B \<rightarrow> A\<close>, \<open>B \<rightarrow> C\<close>.
\<close>

theorem getDeps_dev_traversal_complete:
  assumes "well_keyed g" and "never_throws g"
  shows "(\<exists>seen. collectDepsDev g e [] = Inr seen \<and> distinct seen \<and> set seen = {i. reach g e i})
    \<and> distinct (fst (getDeps mj E (Some g) False))
    \<and> set (fst (getDeps mj E (Some g) False)) =
        getOptimizedUrl ` {i. \<exists>e \<in> set E. reach g (normalize_module e) i}
    \<and> snd (getDeps mj E (Some g) False) = []"
proof -
  have c: "set (dev_contribution g m) = getOptimizedUrl ` {i. reach g m i}"
    and n: "\<not> isl (collectDepsDev g m [])" for m
    using collectDepsDev_reach[OF assms, of m] by (auto simp: dev_contribution_def)
  show ?thesis
    using collectDepsDev_reach[OF assms, of e]
    by (auto simp: getDeps_dev new_Set_props c n)
qed

theorem getDeps_dev_traversal_cycle_witness:
  "well_keyed (cyclic_graph\<lparr>throwsOn := (\<lambda>i. False)\<rparr>)
   \<and> never_throws (cyclic_graph\<lparr>throwsOn := (\<lambda>i. False)\<rparr>)
   \<and> reach (cyclic_graph\<lparr>throwsOn := (\<lambda>i. False)\<rparr>) ''/src/A.ts'' ''/src/A.ts''
   \<and> collectDepsDev (cyclic_graph\<lparr>throwsOn := (\<lambda>i. False)\<rparr>) ''/src/A.ts'' []
       = Inr [''/src/A.ts'', ''/src/B.ts'', ''/src/C.ts'']
   \<and> set (fst (getDeps [] [''/src/A.ts''] (Some (cyclic_graph\<lparr>throwsOn := (\<lambda>i. False)\<rparr>)) False)) =
        getOptimizedUrl ` {i. \<exists>e \<in> set [''/src/A.ts''].
           reach (cyclic_graph\<lparr>throwsOn := (\<lambda>i. False)\<rparr>) (normalize_module e) i}
   \<and> fst (getDeps [] [''/src/A.ts''] (Some (cyclic_graph\<lparr>throwsOn := (\<lambda>i. False)\<rparr>)) False)
       = [''/@fs/src/A.ts'', ''/@fs/src/B.ts'', ''/@fs/src/C.ts'']"
proof -
  let ?g = "cyclic_graph\<lparr>throwsOn := (\<lambda>i. False)\<rparr>"
  have wk: "well_keyed ?g" by (simp add: well_keyed_def cyclic_graph_def)
  have nt: "never_throws ?g" by (simp add: never_throws_def)
  have r: "reach ?g ''/src/A.ts'' ''/src/A.ts''"
    by (rule reach_entry) (simp add: is_node_def cyclic_graph_def)
  have c: "collectDepsDev ?g ''/src/A.ts'' [] = Inr [''/src/A.ts'', ''/src/B.ts'', ''/src/C.ts'']"
    by (simp add: collectDepsDev.simps getModuleById_def Set_add_def cyclic_graph_def)
  have d: "fst (getDeps [] [''/src/A.ts''] (Some ?g) False)
      = [''/@fs/src/A.ts'', ''/@fs/src/B.ts'', ''/@fs/src/C.ts'']"
    unfolding getDeps_dev dev_contribution_def
    by (simp add: c normalize_module_def startsWith_def) code_simp
  from getDeps_dev_traversal_complete[OF wk nt, of "''/src/A.ts''" "[]" "[''/src/A.ts'']"] wk nt r c d
  show ?thesis by blast
qed

text \<open>
  C7. In development mode \<open>getDeps\<close> always returns. Its result is the ordered,
  duplicate-free union of what each entry contributes, and an entry whose traversal raises
  contributes nothing: the exception is caught for that entry, one warning naming it is
  logged, and the entries before and after it are resolved as if it were not in the
  list.
\<close>

theorem getDeps_dev_entry_failure_isolated:
  "getDeps mj modules (Some g) False =
     (new_Set (concat (map (dev_contribution g) (map normalize_module modules))),
      filter (\<lambda>m. isl (collectDepsDev g m [])) (map normalize_module modules))
   \<and> (collectDepsDev g (normalize_module e) [] = Inl err \<longrightarrow>
        dev_contribution g (normalize_module e) = [] \<and>
        fst (getDeps mj (xs @ e # ys) (Some g) False) = fst (getDeps mj (xs @ ys) (Some g) False) \<and>
        snd (getDeps mj (xs @ e # ys) (Some g) False) =
          snd (getDeps mj xs (Some g) False) @ normalize_module e # snd (getDeps mj ys (Some g) False))"
  by (simp add: getDeps_dev dev_contribution_def)

theorem getDeps_dev_entry_failure_witness:
  "collectDepsDev cyclic_graph (normalize_module ''/src/bad.ts'') [] = Inl GraphError
   \<and> fst (getDeps [] ([''/src/C.ts''] @ ''/src/bad.ts'' # [''/src/A.ts'']) (Some cyclic_graph) False)
       = fst (getDeps [] ([''/src/C.ts''] @ [''/src/A.ts'']) (Some cyclic_graph) False)
   \<and> snd (getDeps [] ([''/src/C.ts''] @ ''/src/bad.ts'' # [''/src/A.ts'']) (Some cyclic_graph) False)
       = [''/src/bad.ts'']"
proof -
  have n: "normalize_module ''/src/bad.ts'' = ''/src/bad.ts''"
    "normalize_module ''/src/A.ts'' = ''/src/A.ts''" "normalize_module ''/src/C.ts'' = ''/src/C.ts''"
    by (simp_all add: normalize_module_def startsWith_def)
  have bad: "collectDepsDev cyclic_graph (normalize_module ''/src/bad.ts'') [] = Inl GraphError"
    by (simp add: n collectDepsDev.simps getModuleById_def cyclic_graph_def)
  have ok: "\<not> isl (collectDepsDev cyclic_graph ''/src/A.ts'' [])"
    "\<not> isl (collectDepsDev cyclic_graph ''/src/C.ts'' [])"
    by (simp_all add: collectDepsDev.simps getModuleById_def Set_add_def cyclic_graph_def)
  have w: "snd (getDeps [] [''/src/C.ts''] (Some cyclic_graph) False) = []"
    "snd (getDeps [] [''/src/A.ts''] (Some cyclic_graph) False) = []"
    by (simp_all add: getDeps_dev n ok)
  from getDeps_dev_entry_failure_isolated[of "[]" "[]" cyclic_graph "''/src/bad.ts''" GraphError
      "[''/src/C.ts'']" "[''/src/A.ts'']"] bad
  have "fst (getDeps [] ([''/src/C.ts''] @ ''/src/bad.ts'' # [''/src/A.ts'']) (Some cyclic_graph) False)
       = fst (getDeps [] ([''/src/C.ts''] @ [''/src/A.ts'']) (Some cyclic_graph) False)"
    and "snd (getDeps [] ([''/src/C.ts''] @ ''/src/bad.ts'' # [''/src/A.ts'']) (Some cyclic_graph) False)
       = snd (getDeps [] [''/src/C.ts''] (Some cyclic_graph) False) @ normalize_module ''/src/bad.ts''
           # snd (getDeps [] [''/src/A.ts''] (Some cyclic_graph) False)"
    by blast+
  with bad w n show ?thesis by simp
qed

section \<open>Properties of the string and path helpers\<close>



lemma split_from_single:
  "c \<notin> set xs \<Longrightarrow> split_from [c] 0 (xs @ c # ys) cur = (cur @ xs) # split_from [c] 0 ys []"
  by (induction xs arbitrary: cur) (auto simp: startsWith_def)

lemma split_from_none:
  "c \<notin> set xs \<Longrightarrow> split_from [c] 0 xs cur = [cur @ xs]"
  by (induction xs arbitrary: cur) (auto simp: startsWith_def)

definition plain_segment :: "string \<Rightarrow> bool" where
  "plain_segment s = (s \<noteq> [] \<and> s \<noteq> ''.'' \<and> s \<noteq> ''..'' \<and> CHR ''/'' \<notin> set s)"

lemma split_str_join:
  "segs \<noteq> [] \<Longrightarrow> list_all plain_segment segs \<Longrightarrow> split_str (join_str segs ''/'') ''/'' = segs"
proof (induction segs rule: induct_list012)
  case 1
  then show ?case by simp
next
  case (2 x)
  then show ?case by (simp add: split_str_def split_from_none plain_segment_def)
next
  case More: (3 x y ys)
  then have "split_from ''/'' 0 (x @ CHR ''/'' # join_str (y # ys) ''/'') [] = ([] @ x) # split_from ''/'' 0 (join_str (y # ys) ''/'') []"
    by (intro split_from_single) (simp add: plain_segment_def)
  with More show ?case by (simp add: split_str_def)
qed

lemma foldl_normalizeStep_plain:
  "list_all plain_segment segs \<Longrightarrow> foldl (normalizeStep b) acc segs = acc @ segs"
  by (induction segs arbitrary: acc) (auto simp: normalizeStep_def plain_segment_def)

lemma join_str_nonempty: "segs \<noteq> [] \<Longrightarrow> list_all plain_segment segs \<Longrightarrow> join_str segs sep \<noteq> []"
  by (induction segs sep rule: join_str.induct) (auto simp: plain_segment_def)

lemma last_join_str:
  "segs \<noteq> [] \<Longrightarrow> list_all plain_segment segs \<Longrightarrow> last (join_str segs ''/'') \<noteq> CHR ''/''"
proof (induction segs rule: induct_list012)
  case (2 x)
  then show ?case by (auto simp: plain_segment_def dest: last_in_set)
next
  case (3 x y ys)
  then show ?case using join_str_nonempty[of "y # ys" "''/''"] by simp
qed simp

lemma join_str_Cons: "segs \<noteq> [] \<Longrightarrow> join_str (x # segs) sep = x @ sep @ join_str segs sep"
  by (cases segs) simp_all

text \<open>An absolute path made of plain segments is its own normal form.\<close>

lemma posix_normalize_plain:
  assumes "segs \<noteq> []" "list_all plain_segment segs"
  shows "posix_normalize (''/'' @ join_str segs ''/'') = ''/'' @ join_str segs ''/''"
proof -
  let ?J = "join_str segs ''/''"
  have sp: "split_str (''/'' @ ?J) ''/'' = [] # segs"
    using split_from_single[of "CHR ''/''" "[]" ?J "[]"] split_str_join[OF assms]
    by (simp add: split_str_def)
  have ns: "normalizeString (''/'' @ ?J) False = ?J"
    unfolding normalizeString_def sp
    by (simp add: normalizeStep_def foldl_normalizeStep_plain[OF assms(2)])
  from last_join_str[OF assms] join_str_nonempty[OF assms]
  show ?thesis by (simp add: posix_normalize_def ns[simplified] Let_def)
qed


lemma join_str_append:
  "xs \<noteq> [] \<Longrightarrow> ys \<noteq> [] \<Longrightarrow> join_str (xs @ ys) sep = join_str xs sep @ sep @ join_str ys sep"
  by (induction xs sep rule: join_str.induct) (auto simp: join_str_Cons)

lemma path_join_cwd_plain:
  assumes "segs \<noteq> []" "list_all plain_segment segs" "plain_segment key"
  shows "path_join [''/'' @ join_str segs ''/'', ''.vite'', key]
           = ''/'' @ join_str segs ''/'' @ ''/.vite/'' @ key"
proof -
  let ?J = "join_str segs ''/''"
  have pl: "list_all plain_segment (segs @ [''.vite'', key])"
    using assms by (simp add: plain_segment_def)
  have ne: "''/'' @ ?J \<noteq> []" "key \<noteq> []" using assms by (simp_all add: plain_segment_def)
  have j: "join_str [''/'' @ ?J, ''.vite'', key] ''/'' = ''/'' @ join_str (segs @ [''.vite'', key]) ''/''"
    using assms(1) by (simp add: join_str_append)
  have "path_join [''/'' @ ?J, ''.vite'', key] = posix_normalize (join_str [''/'' @ ?J, ''.vite'', key] ''/'')"
    using ne by (simp add: path_join_def)
  also have "\<dots> = ''/'' @ join_str (segs @ [''.vite'', key]) ''/''"
    unfolding j by (rule posix_normalize_plain) (use pl in simp_all)
  also have "\<dots> = ''/'' @ ?J @ ''/.vite/'' @ key"
    using assms(1) by (simp add: join_str_append)
  finally show ?thesis .
qed

lemma split_from_skip:
  "split_from sep (length xs) (xs @ ys) cur = split_from sep 0 ys cur"
  by (induction xs) simp_all

lemma startsWith_Cons_take:
  assumes "length sep \<le> length s"
  shows "startsWith (s @ t) sep = startsWith s sep"
  using assms by (simp add: startsWith_def)

lemma split_from_first:
  assumes "sep \<noteq> []" and "\<not> includes_str (x @ butlast sep) sep"
  shows "split_from sep 0 (x @ sep @ y) cur = (cur @ x) # split_from sep 0 y []"
  using assms(2)
proof (induction x arbitrary: cur)
  case Nil
  from assms(1) obtain s ss where sep: "sep = s # ss" by (cases sep) auto
  have "split_from sep 0 (sep @ y) cur = cur # split_from sep (length ss) (ss @ y) []"
    by (simp add: sep startsWith_def)
  then show ?case by (simp add: split_from_skip)
next
  case (Cons c x)
  from Cons.prems have ns: "\<not> startsWith ((c # x) @ butlast sep) sep"
    and ni: "\<not> includes_str (x @ butlast sep) sep" by simp_all
  have "((c # x) @ butlast sep) @ (last sep # y) = (c # x) @ sep @ y"
    using append_butlast_last_id[OF assms(1)] by (metis append.assoc append_Cons append_Nil)
  then have "startsWith ((c # x) @ sep @ y) sep = startsWith (((c # x) @ butlast sep) @ (last sep # y)) sep"
    by (simp only:)
  also have "\<dots> = startsWith ((c # x) @ butlast sep) sep"
    by (rule startsWith_Cons_take) simp
  finally have "\<not> startsWith (c # x @ sep @ y) sep" using ns by simp
  then have "split_from sep 0 ((c # x) @ sep @ y) cur = split_from sep 0 (x @ sep @ y) (cur @ [c])"
    by simp
  with Cons.IH[OF ni] show ?case by simp
qed

lemma split_from_absent:
  "sep \<noteq> [] \<Longrightarrow> \<not> includes_str y sep \<Longrightarrow> split_from sep 0 y cur = [cur @ y]"
  by (induction y arbitrary: cur) auto

lemma split_str_first:
  "sep \<noteq> [] \<Longrightarrow> \<not> includes_str (x @ butlast sep) sep \<Longrightarrow>
     split_str (x @ sep @ y) sep = x # split_str y sep"
  by (simp add: split_str_def split_from_first)

lemma split_str_absent:
  "sep \<noteq> [] \<Longrightarrow> \<not> includes_str y sep \<Longrightarrow> split_str y sep = [y]"
  by (simp add: split_str_def split_from_absent)

lemma not_startsWith_fs:
  assumes "CHR ''/'' \<notin> set x" "x \<noteq> ''@fs''"
  shows "\<not> startsWith (CHR ''/'' # x @ CHR ''/'' # r) ''/@fs/''"
  using assms
  by (cases x; cases "tl x"; cases "tl (tl x)"; cases "tl (tl (tl x))")
    (auto simp: startsWith_def)



section \<open>Properties of the URL rewrite\<close>









section \<open>Properties of the manifest\<close>

text \<open>The manifest of the specification's example, as the parsed content of the file.\<close>

definition example_manifest :: manifest where
  "example_manifest = [(''client.ts'', [''a.js'', ''b.js'']), (''admin.ts'', [''a.js'', ''c.js''])]"

text \<open>
  C2 (as amended). Loading re-keys every entry of the manifest file to
  \<^verbatim>\<open>path.join(cwd, ".vite", key)\<close>. For every working directory \<open>dir\<close> that is an absolute
  path of plain segments outside \<^verbatim>\<open>/@fs\<close>, the manifest file
  \<^verbatim>\<open>{"client.ts": ["a.js","b.js"], "admin.ts": ["a.js","c.js"]}\<close> is held under the keys
  \<^verbatim>\<open>dir/.vite/client.ts\<close> and \<^verbatim>\<open>dir/.vite/admin.ts\<close>, and in production mode the resolver
  called with these two keys returns exactly \<^verbatim>\<open>["a.js","b.js","c.js"]\<close>.
\<close>

theorem getDeps_manifest_example_rekeyed:
  assumes "segs \<noteq> []" and "list_all plain_segment segs" and "hd segs \<noteq> ''@fs''"
    and "dir = ''/'' @ join_str segs ''/''"
  shows "manifestJson dir example_manifest =
           [(dir @ ''/.vite/client.ts'', [''a.js'', ''b.js'']), (dir @ ''/.vite/admin.ts'', [''a.js'', ''c.js''])]
    \<and> getDeps (manifestJson dir example_manifest)
         [dir @ ''/.vite/client.ts'', dir @ ''/.vite/admin.ts''] viteDevServer True
       = ([''a.js'', ''b.js'', ''c.js''], [])"
proof -
  have k: "path_join [dir, ''.vite'', key] = dir @ ''/.vite/'' @ key" if "plain_segment key" for key
    unfolding assms(4) using path_join_cwd_plain[OF assms(1,2) that] by simp
  have mj: "manifestJson dir example_manifest =
           [(dir @ ''/.vite/client.ts'', [''a.js'', ''b.js'']), (dir @ ''/.vite/admin.ts'', [''a.js'', ''c.js''])]"
    using k[of "''client.ts''"] k[of "''admin.ts''"]
    by (simp add: manifestJson_def example_manifest_def plain_segment_def)
  obtain x xs where segs: "segs = x # xs" using assms(1) by (cases segs) auto
  have x: "CHR ''/'' \<notin> set x" "x \<noteq> ''@fs''" using assms(2,3) by (simp_all add: segs plain_segment_def)
  have "\<exists>r. dir @ rest = CHR ''/'' # x @ CHR ''/'' # r" if "rest \<noteq> []" "hd rest = CHR ''/''" for rest
  proof (cases xs)
    case Nil
    with that show ?thesis by (cases rest) (auto simp: assms(4) segs)
  next
    case (Cons y ys)
    then show ?thesis by (simp add: assms(4) segs)
  qed
  then have nf: "\<not> startsWith (dir @ rest) ''/@fs/''" if "rest \<noteq> []" "hd rest = CHR ''/''" for rest
    using not_startsWith_fs[OF x] that by metis
  have nfile: "\<not> startsWith (dir @ rest) ''file://''" for rest
    by (simp add: assms(4) startsWith_def)
  have n: "normalize_module (dir @ ''/.vite/client.ts'') = dir @ ''/.vite/client.ts''"
    "normalize_module (dir @ ''/.vite/admin.ts'') = dir @ ''/.vite/admin.ts''"
    using nf[of "''/.vite/client.ts''"] nf[of "''/.vite/admin.ts''"] nfile
    by (simp_all add: normalize_module_def)
  have "getDeps (manifestJson dir example_manifest)
         [dir @ ''/.vite/client.ts'', dir @ ''/.vite/admin.ts''] viteDevServer True
       = ([''a.js'', ''b.js'', ''c.js''], [])"
    unfolding mj getDeps_prod by (simp add: n manifestJson_get_def new_Set_def Set_add_def)
  with mj show ?thesis by simp
qed

theorem getDeps_manifest_example_witness:
  "getDeps (manifestJson ''/mock/project'' example_manifest)
     [''/mock/project/.vite/client.ts'', ''/mock/project/.vite/admin.ts''] None True
   = ([''a.js'', ''b.js'', ''c.js''], [])"
proof -
  have 1: "[''mock'', ''project''] \<noteq> []" by simp
  have 2: "list_all plain_segment [''mock'', ''project'']" by (simp add: plain_segment_def)
  have 3: "hd [''mock'', ''project''] \<noteq> ''@fs''" by simp
  have 4: "''/mock/project'' = ''/'' @ join_str [''mock'', ''project''] ''/''" by simp
  from getDeps_manifest_example_rekeyed[OF 1 2 3 4, of None, THEN conjunct2] show ?thesis by simp
qed

text \<open>Called with the bare keys of the file, the resolver finds nothing.\<close>

theorem getDeps_manifest_example_bare_keys:
  "getDeps (manifestJson ''/mock/project'' example_manifest) [''client.ts'', ''admin.ts''] None True
     = ([], [])
   \<and> fst (getDeps (manifestJson ''/mock/project'' example_manifest) [''client.ts'', ''admin.ts''] None True)
     \<noteq> [''a.js'', ''b.js'', ''c.js'']"
  by code_simp

text \<open>
  A stand-in for \<^verbatim>\<open>JSON.parse\<close> on the two texts the examples use: \<^verbatim>\<open>{}\<close> is the empty
  object, and the malformed text of the repository's test raises.
\<close>

definition sample_JSON_parse :: "string \<Rightarrow> error + manifest" where
  "sample_JSON_parse text = (if text = ''{}'' then Inr [] else Inl SyntaxError)"

text \<open>
  C3. What the code does on a manifest file that exists and does not parse: the
  exception of \<^verbatim>\<open>JSON.parse\<close> leaves the module's top level, so loading the module
  fails; no warning is logged and no empty manifest takes the file's place.
\<close>

theorem load_preload_malformed_raises:
  "JSON_parse text = Inl e \<Longrightarrow> load_preload JSON_parse dir (Some text) = Inl e"
  by (simp add: load_preload_def)

theorem load_preload_malformed_witness:
  "sample_JSON_parse ''invalid json {'' = Inl SyntaxError
   \<and> load_preload sample_JSON_parse ''/mock/project'' (Some ''invalid json {'') = Inl SyntaxError
   \<and> load_preload sample_JSON_parse ''/mock/project'' (Some ''invalid json {'') \<noteq> Inr []
   \<and> load_preload sample_JSON_parse ''/mock/project'' None = Inr []"
proof -
  have p: "sample_JSON_parse ''invalid json {'' = Inl SyntaxError" by (simp add: sample_JSON_parse_def)
  have a: "load_preload sample_JSON_parse ''/mock/project'' None = Inr []"
    by (simp add: load_preload_def sample_JSON_parse_def manifestJson_def)
  from load_preload_malformed_raises[of sample_JSON_parse "''invalid json {''" SyntaxError "''/mock/project''"] p a
  show ?thesis by simp
qed

section \<open>Properties of the orchestrator\<close>

subsection \<open>What a run that returns has done\<close>

lemma andThen_Inr: "andThen r f = Inr y \<longleftrightarrow> (\<exists>x. r = Inr x \<and> f x = Inr y)"
  by (cases r) (simp_all add: andThen_def)

lemma purge_take_drop:
  "i \<le> length ps \<Longrightarrow>
     purge objs i ps = filter (\<lambda>r. \<not> vitePlugin_flag (objs r)) (take i ps) @ drop i ps"
proof (induction i arbitrary: ps)
  case 0
  then show ?case by simp
next
  case (Suc i)
  then have i: "i < length ps" by simp
  show ?case
  proof (cases "vitePlugin_flag (objs (ps ! i))")
    case True
    have "purge objs (Suc i) ps = purge objs i (take i ps @ drop (Suc i) ps)"
      using True by simp
    also have "\<dots> = filter (\<lambda>r. \<not> vitePlugin_flag (objs r)) (take i ps) @ drop (Suc i) ps"
      using i by (subst Suc.IH) (simp_all add: min_def)
    finally show ?thesis using True i by (simp add: take_Suc_conv_app_nth)
  next
    case False
    then have "purge objs (Suc i) ps = purge objs i ps" by simp
    also have "\<dots> = filter (\<lambda>r. \<not> vitePlugin_flag (objs r)) (take i ps) @ drop i ps"
      using i by (subst Suc.IH) simp_all
    finally show ?thesis using False i
      by (simp add: take_Suc_conv_app_nth Cons_nth_drop_Suc)
  qed
qed

lemma purge_filter:
  "purge objs (length ps) ps = filter (\<lambda>r. \<not> vitePlugin_flag (objs r)) ps"
  by (simp add: purge_take_drop)

definition tag :: "(ref \<Rightarrow> plugin) \<Rightarrow> ref \<Rightarrow> (ref \<Rightarrow> plugin)" where
  "tag objs r = objs(r := (objs r)\<lparr>vitePlugin_flag := True\<rparr>)"

lemma foldl_tag_fields [simp]:
  "init (foldl tag objs rs r) = init (objs r)"
  "postInit (foldl tag objs rs r) = postInit (objs r)"
  "vitePlugin_flag (foldl tag objs rs r) = (vitePlugin_flag (objs r) \<or> r \<in> set rs)"
  by (induction rs arbitrary: objs) (auto simp: tag_def)

lemma forEach_tagAndInit:
  "forEach tagAndInit rs st = Inr st' \<Longrightarrow>
     st' = st\<lparr>objects := foldl tag (objects st) rs,
              trace := trace st @ map Init (filter (\<lambda>r. init (objects st r) \<noteq> None) rs)\<rparr>"
proof (induction rs arbitrary: st)
  case Nil
  then show ?case by simp
next
  case (Cons r rs)
  from Cons.prems obtain st1 where 1: "tagAndInit r st = Inr st1"
    and 2: "forEach tagAndInit rs st1 = Inr st'"
    by (auto simp: andThen_Inr)
  from 1 have st1: "st1 = st\<lparr>objects := tag (objects st) r,
      trace := trace st @ (if init (objects st r) \<noteq> None then [Init r] else [])\<rparr>"
    by (auto simp: tagAndInit_def call_hook_def tag_def Let_def split: option.splits outcome.splits)
  have "init (tag (objects st) r x) = init (objects st x)" for x by (simp add: tag_def)
  with Cons.IH[OF 2] show ?case by (simp add: st1)
qed

lemma forEach_runPostInit:
  "forEach runPostInit rs st = Inr st' \<Longrightarrow>
     st' = st\<lparr>trace := trace st @ map PostInit (filter (\<lambda>r. postInit (objects st r) \<noteq> None) rs)\<rparr>"
proof (induction rs arbitrary: st)
  case Nil
  then show ?case by simp
next
  case (Cons r rs)
  from Cons.prems obtain st1 where 1: "runPostInit r st = Inr st1"
    and 2: "forEach runPostInit rs st1 = Inr st'"
    by (auto simp: andThen_Inr)
  from 1 have st1: "st1 = st\<lparr>trace := trace st @ (if postInit (objects st r) \<noteq> None then [PostInit r] else [])\<rparr>"
    by (auto simp: runPostInit_def call_hook_def split: option.splits outcome.splits)
  with Cons.IH[OF 2] show ?case by (simp add: st1)
qed

definition loadEvents :: "env \<Rightarrow> state \<Rightarrow> event list" where
  "loadEvents env st =
     (if isProduction st
      then [Import (path_join [cwd env, ''./.vite/dist/server/clientPlugins.js'']),
            Import (path_join [cwd env, ''./.vite/dist/server/server.js''])]
      else [SsrLoadModule ''/clientPlugins.ts'', SsrLoadModule ''/server.ts''])"

lemma loadModule_Inr:
  "loadModule env b s st = Inr st' \<Longrightarrow>
     st' = st\<lparr>trace := trace st @ [if isProduction st then Import (path_join [cwd env, b]) else SsrLoadModule s]\<rparr>"
  by (auto simp: loadModule_def perform_def split: if_splits option.splits)

lemma reloadPlugins_Inr:
  assumes "reloadPlugins env st = Inr st'"
  shows "st' = st\<lparr>plugins := filter (\<lambda>r. \<not> vitePlugin_flag (objects st r)) (plugins st)
                      @ clientPlugins_default env @ serverPlugins_default env,
                  objects := foldl tag (objects st) (clientPlugins_default env @ serverPlugins_default env),
                  trace := trace st @ loadEvents env st
                    @ map Init (filter (\<lambda>r. init (objects st r) \<noteq> None) (clientPlugins_default env))
                    @ map Init (filter (\<lambda>r. init (objects st r) \<noteq> None) (serverPlugins_default env))
                    @ map PostInit (filter (\<lambda>r. postInit (objects st r) \<noteq> None) (clientPlugins_default env))
                    @ map PostInit (filter (\<lambda>r. postInit (objects st r) \<noteq> None) (serverPlugins_default env))\<rparr>"
proof -
  let ?st0 = "st\<lparr>plugins := purge (objects st) (length (plugins st)) (plugins st)\<rparr>"
  from assms obtain s1 s2 s3 s4 s5 where
    1: "loadModule env ''./.vite/dist/server/clientPlugins.js'' ''/clientPlugins.ts'' ?st0 = Inr s1"
    and 2: "loadModule env ''./.vite/dist/server/server.js'' ''/server.ts'' s1 = Inr s2"
    and 3: "forEach tagAndInit (clientPlugins_default env)
        (s2\<lparr>plugins := (plugins s2 @ clientPlugins_default env) @ serverPlugins_default env\<rparr>) = Inr s3"
    and 4: "forEach tagAndInit (serverPlugins_default env) s3 = Inr s4"
    and 5: "forEach runPostInit (clientPlugins_default env) s4 = Inr s5"
    and 6: "forEach runPostInit (serverPlugins_default env) s5 = Inr st'"
    unfolding reloadPlugins_def Let_def andThen_Inr by blast
  note a = loadModule_Inr[OF 1] loadModule_Inr[OF 2] forEach_tagAndInit[OF 3]
    forEach_tagAndInit[OF 4] forEach_runPostInit[OF 5] forEach_runPostInit[OF 6]
  show ?thesis
    unfolding a by (simp add: purge_filter loadEvents_def)
qed

lemma perform_Inr: "perform env e st = Inr st' \<Longrightarrow> st' = st\<lparr>trace := trace st @ [e]\<rparr>"
  by (auto simp: perform_def split: if_splits)

lemma forEach_call_hook_frame:
  "forEach (\<lambda>(r, h). call_hook (ev r) h) hs st = Inr st' \<Longrightarrow>
     vite st' = vite st \<and> isProduction st' = isProduction st"
proof (induction hs arbitrary: st)
  case Nil
  then show ?case by simp
next
  case (Cons x hs)
  obtain r h where x: "x = (r, h)" by (cases x)
  from Cons.prems obtain st1 where 1: "call_hook (ev r) h st = Inr st1"
    and 2: "forEach (\<lambda>(r, h). call_hook (ev r) h) hs st1 = Inr st'"
    by (auto simp: andThen_Inr x)
  from 1 have "vite st1 = vite st \<and> isProduction st1 = isProduction st"
    by (auto simp: call_hook_def split: outcome.splits)
  with Cons.IH[OF 2] show ?case by simp
qed

lemma restartServer_production:
  assumes "restartServer env hooks st = Inr st'" and "isProduction st"
  shows "vite st' = vite st \<and> isProduction st'"
proof -
  from assms obtain s1 s2 s3 s4 where
    1: "perform env (Import ''compression'') st = Inr s1"
    and 2: "perform env (Import ''sirv'') s1 = Inr s2"
    and 3: "perform env (RouterUse ''compression()'') s2 = Inr s3"
    and 4: "perform env (RouterUse ''sirv(./.vite/dist/client)'')
              (s3\<lparr>router := router s3 @ [''compression()'']\<rparr>) = Inr s4"
    and 5: "reloadPlugins env (s4\<lparr>router := router s4 @ [''sirv(./.vite/dist/client)'']\<rparr>) = Inr st'"
    by (auto simp: restartServer_def Let_def andThen_Inr)
  note a = perform_Inr[OF 1] perform_Inr[OF 2] perform_Inr[OF 3] perform_Inr[OF 4]
    reloadPlugins_Inr[OF 5]
  show ?thesis using assms(2) unfolding a by simp
qed

lemma postInitExpress_production:
  assumes "postInitExpress env st = Inr st'" and "\<not> argv_build env"
    and "argv_preview env \<or> isProduction st" and "vite st = None"
  shows "vite st' = None \<and> isProduction st'"
proof -
  obtain hs ivs pvs where h: "getRelevantHooks st = (hs, ivs, pvs)" by (cases "getRelevantHooks st")
  let ?st0 = "if argv_preview env then st\<lparr>isProduction := True\<rparr> else st"
  have p0: "isProduction ?st0" "vite ?st0 = None" using assms(3,4) by auto
  from assms(1,2) obtain s1 s2 s3 where
    1: "restartServer env (Some hs) ?st0 = Inr s1"
    and 2: "(if app s1 then perform env (AppUse ''router'') s1 else Inl (TypeError, s1)) = Inr s2"
    and 3: "forEach (\<lambda>(r, h). call_hook (InitVite r) h) ivs
              (s2\<lparr>templateHtmlPromise := (if isProduction s2 then Some (dist_index_html env) else None)\<rparr>) = Inr s3"
    and 4: "forEach (\<lambda>(r, h). call_hook (PostInitVite r) h) pvs s3 = Inr st'"
    by (auto simp: postInitExpress_def h Let_def andThen_Inr)
  from restartServer_production[OF 1 p0(1)] p0(2) have s1: "vite s1 = None" "isProduction s1" by simp_all
  from 2 have "s2 = s1\<lparr>trace := trace s1 @ [AppUse ''router'']\<rparr>"
    by (auto dest: perform_Inr split: if_splits)
  with s1 have s2: "vite s2 = None" "isProduction s2" by simp_all
  from forEach_call_hook_frame[OF 3] s2 have s3: "vite s3 = None" "isProduction s3" by simp_all
  from forEach_call_hook_frame[OF 4] s3 show ?thesis by simp
qed

subsection \<open>A sample installation\<close>

text \<open>
  Two host plugins (an \<^verbatim>\<open>express\<close> plugin with a port, and a bootstrap plugin whose
  \<^verbatim>\<open>configureVite\<close> hook adds one client and one server module and which has an
  \<^verbatim>\<open>initVite\<close> hook), and plugin instances for the registries to return.
\<close>

definition bare_plugin :: plugin where
  "bare_plugin = \<lparr>name = ''host'', port = None, vitePlugin_flag = False, init = None,
     postInit = None, configureVite = None, initVite = None, postInitVite = None\<rparr>"

definition add_modules :: "VitePluginConfig \<Rightarrow> error + VitePluginConfig" where
  "add_modules c = Inr (c\<lparr>clientPluginModules := clientPluginModules c @ [''example/client''],
                          serverPluginModules := serverPluginModules c @ [''example/server'']\<rparr>)"

definition sample_objects :: "ref \<Rightarrow> plugin" where
  "sample_objects r =
     (if r = 0 then bare_plugin\<lparr>name := ''express'', port := Some 3000\<rparr>
      else if r = 1 then bare_plugin\<lparr>name := ''boot'', configureVite := Some add_modules,
                                      initVite := Some Returns\<rparr>
      else if r = 10 then bare_plugin\<lparr>name := ''client'', init := Some Returns, postInit := Some Returns\<rparr>
      else if r = 11 then bare_plugin\<lparr>name := ''client2'', postInit := Some Returns\<rparr>
      else bare_plugin\<lparr>name := ''server'', init := Some Returns, postInit := Some Returns\<rparr>)"

definition sample_state :: "bool \<Rightarrow> state" where
  "sample_state production = initExpress (vitePlugin_init [0, 1] (vitePlugin production sample_objects))"

definition sample_env :: env where
  "sample_env =
     \<lparr>argv_build = False, argv_preview = False, cwd = ''/mock/project'', fails = (\<lambda>e. False),
      createServer = (\<lambda>c. \<lparr>moduleGraph_of = cyclic_graph, transformIndexHtml = (\<lambda>url html. html)\<rparr>),
      clientPlugins_default = [10, 11], serverPlugins_default = [12],
      dist_index_html = Inr indexHtml\<rparr>"

lemma sample_state_simps:
  "plugins (sample_state p) = [0, 1]" "objects (sample_state p) = sample_objects"
  "vite (sample_state p) = None" "isProduction (sample_state p) = p" "stop (sample_state p)"
  "app (sample_state p)" "trace (sample_state p) = []" "router (sample_state p) = []"
  by (simp_all add: sample_state_def initExpress_def vitePlugin_init_def vitePlugin_def Let_def)

lemmas sample_run_defs =
  reloadPlugins_def loadModule_def perform_def andThen_def raisedIn_def sample_env_def
  sample_state_simps tagAndInit_def runPostInit_def call_hook_def sample_objects_def
  bare_plugin_def Let_def

subsection \<open>The reload sub-procedure\<close>

text \<open>
  C9. In a run of \<open>reloadPlugins\<close> that returns, the hooks are called in this order, after
  the two registry modules are loaded: the \<^verbatim>\<open>init\<close> hooks of the client instances that have
  one, in registration order, then those of the server instances; only then the
  \<^verbatim>\<open>postInit\<close> hooks of the client instances, then those of the server instances. Each call
  is awaited, so a hook has completed when the next one starts.
\<close>

theorem reloadPlugins_hook_order:
  assumes "reloadPlugins env st = Inr st'"
  shows "trace st' = trace st @ loadEvents env st
     @ map Init (filter (\<lambda>r. init (objects st r) \<noteq> None) (clientPlugins_default env))
     @ map Init (filter (\<lambda>r. init (objects st r) \<noteq> None) (serverPlugins_default env))
     @ map PostInit (filter (\<lambda>r. postInit (objects st r) \<noteq> None) (clientPlugins_default env))
     @ map PostInit (filter (\<lambda>r. postInit (objects st r) \<noteq> None) (serverPlugins_default env))"
  by (simp add: reloadPlugins_Inr[OF assms])

theorem reloadPlugins_hook_order_witness:
  "\<exists>st'. reloadPlugins sample_env (sample_state True) = Inr st'
     \<and> trace st' =
        [Import ''/mock/project/.vite/dist/server/clientPlugins.js'',
         Import ''/mock/project/.vite/dist/server/server.js'',
         Init 10, Init 12, PostInit 10, PostInit 11, PostInit 12]"
proof -
  have "\<exists>st'. reloadPlugins sample_env (sample_state True) = Inr st'"
    by (simp add: reloadPlugins_def loadModule_def perform_def andThen_def sample_env_def
        sample_state_simps tagAndInit_def runPostInit_def call_hook_def sample_objects_def
        bare_plugin_def Let_def)
  then obtain st' where r: "reloadPlugins sample_env (sample_state True) = Inr st'" ..
  have p: "path_join [''/mock/project'', ''./.vite/dist/server/clientPlugins.js'']
      = ''/mock/project/.vite/dist/server/clientPlugins.js''"
    "path_join [''/mock/project'', ''./.vite/dist/server/server.js'']
      = ''/mock/project/.vite/dist/server/server.js''"
    by code_simp+
  from reloadPlugins_hook_order[OF r] have "trace st' =
        [Import ''/mock/project/.vite/dist/server/clientPlugins.js'',
         Import ''/mock/project/.vite/dist/server/server.js'',
         Init 10, Init 12, PostInit 10, PostInit 11, PostInit 12]"
    by (simp add: sample_state_simps loadEvents_def sample_env_def p sample_objects_def bare_plugin_def)
  with r show ?thesis by blast
qed

text \<open>
  Successive invocations of the reload sub-procedure, each with the environment it
  meets (the registries may return other instances after a hot update). An invocation
  that raises leaves the state it has reached, and the next invocation starts from it.
  The result is what each invocation raised, \<open>None\<close> for one that returned, and the
  state after the last.
\<close>

definition state_after :: "error \<times> state + state \<Rightarrow> state" where
  "state_after r = (case r of Inl (e, st) \<Rightarrow> st | Inr st \<Rightarrow> st)"

definition raised :: "error \<times> state + state \<Rightarrow> error option" where
  "raised r = (case r of Inl (e, st) \<Rightarrow> Some e | Inr st \<Rightarrow> None)"

fun reloadPlugins_seq :: "env list \<Rightarrow> state \<Rightarrow> error option list \<times> state" where
  "reloadPlugins_seq [] st = ([], st)"
| "reloadPlugins_seq (env # envs) st =
     (let r = reloadPlugins env st;
          (outcomes, st') = reloadPlugins_seq envs (state_after r)
      in (raised r # outcomes, st'))"

definition generation :: "env \<Rightarrow> ref list" where
  "generation env = clientPlugins_default env @ serverPlugins_default env"

lemma reloadPlugins_seq_Cons:
  assumes "reloadPlugins_seq (env # envs) st = (outcomes, st')"
  obtains os where "outcomes = raised (reloadPlugins env st) # os"
    and "reloadPlugins_seq envs (state_after (reloadPlugins env st)) = (os, st')"
  using assms by (auto simp: Let_def split: prod.splits)

lemma reloadPlugins_seq_length:
  "reloadPlugins_seq envs st = (outcomes, st') \<Longrightarrow> length outcomes = length envs"
proof (induction envs arbitrary: st outcomes)
  case Nil
  then show ?case by simp
next
  case (Cons env envs)
  from Cons.prems obtain os where "outcomes = raised (reloadPlugins env st) # os"
    and "reloadPlugins_seq envs (state_after (reloadPlugins env st)) = (os, st')"
    by (rule reloadPlugins_seq_Cons)
  with Cons.IH show ?case by simp
qed

lemma raised_None: "raised r = None \<Longrightarrow> r = Inr (state_after r)"
  by (cases r) (auto simp: raised_def state_after_def)

text \<open>After one invocation that returns, the tagged entries are its generation.\<close>

lemma reloadPlugins_tagged:
  assumes "reloadPlugins env st = Inr st'"
  shows "(\<forall>r \<in> set (plugins st'). vitePlugin_flag (objects st' r) = (r \<in> set (generation env)))
    \<and> (\<exists>kept. plugins st' = kept @ generation env)"
  by (auto simp: reloadPlugins_Inr[OF assms] generation_def)

lemma reloadPlugins_seq_tagged:
  assumes "reloadPlugins_seq envs st = (outcomes, st')" "envs \<noteq> []" "last outcomes = None"
  shows "(\<forall>r \<in> set (plugins st'). vitePlugin_flag (objects st' r) = (r \<in> set (generation (last envs))))
    \<and> (\<exists>kept. plugins st' = kept @ generation (last envs))"
  using assms
proof (induction envs arbitrary: st outcomes)
  case Nil
  then show ?case by simp
next
  case (Cons env envs)
  from Cons.prems(1) obtain os where o: "outcomes = raised (reloadPlugins env st) # os"
    and 2: "reloadPlugins_seq envs (state_after (reloadPlugins env st)) = (os, st')"
    by (rule reloadPlugins_seq_Cons)
  show ?case
  proof (cases "envs = []")
    case True
    with 2 have os: "os = []" and st': "st' = state_after (reloadPlugins env st)" by simp_all
    from Cons.prems(3) o os have "raised (reloadPlugins env st) = None" by simp
    then have "reloadPlugins env st = Inr st'" unfolding st' by (rule raised_None)
    from reloadPlugins_tagged[OF this] True show ?thesis by simp
  next
    case False
    from reloadPlugins_seq_length[OF 2] False have "os \<noteq> []" by auto
    with Cons.prems(3) o have l: "last os = None" by simp
    show ?thesis unfolding last_ConsR[OF False] by (rule Cons.IH[OF 2 False l])
  qed
qed

lemma reloadPlugins_seq_invariant:
  assumes "reloadPlugins_seq envs st = (outcomes, st')" "envs \<noteq> []"
    and "list_all (\<lambda>out. out = None) outcomes"
    and "\<forall>env \<in> set envs. set (generation env) \<inter> set P = {}"
    and "filter (\<lambda>r. \<not> vitePlugin_flag (objects st r)) (plugins st) = P"
  shows "plugins st' = P @ generation (last envs)
    \<and> filter (\<lambda>r. \<not> vitePlugin_flag (objects st' r)) (plugins st') = P
    \<and> (\<forall>r \<in> set (generation (last envs)). vitePlugin_flag (objects st' r))"
  using assms
proof (induction envs arbitrary: st outcomes)
  case Nil
  then show ?case by simp
next
  case (Cons env envs)
  from Cons.prems(1) obtain os where o: "outcomes = raised (reloadPlugins env st) # os"
    and 2: "reloadPlugins_seq envs (state_after (reloadPlugins env st)) = (os, st')"
    by (rule reloadPlugins_seq_Cons)
  let ?st1 = "state_after (reloadPlugins env st)"
  from Cons.prems(3) o have "raised (reloadPlugins env st) = None" and os: "list_all (\<lambda>out. out = None) os"
    by simp_all
  then have 1: "reloadPlugins env st = Inr ?st1" by (simp add: raised_None)
  note s1 = reloadPlugins_Inr[OF 1]
  have P: "\<forall>r \<in> set P. \<not> vitePlugin_flag (objects st r) \<and> r \<notin> set (generation env)"
    using Cons.prems(4,5) by auto
  have pl: "plugins ?st1 = P @ generation env"
    using Cons.prems(5) by (subst s1) (simp add: generation_def)
  have fl: "vitePlugin_flag (objects ?st1 r) = (vitePlugin_flag (objects st r) \<or> r \<in> set (generation env))" for r
    by (subst s1) (simp add: generation_def)
  have f1: "filter (\<lambda>r. \<not> vitePlugin_flag (objects ?st1 r)) (plugins ?st1) = P"
    using P by (simp add: pl fl filter_id_conv)
  show ?case
  proof (cases "envs = []")
    case True
    with 2 have "st' = ?st1" by simp
    with True pl f1 fl show ?thesis by simp
  next
    case False
    from Cons.prems(4) have d: "\<forall>env \<in> set envs. set (generation env) \<inter> set P = {}" by simp
    show ?thesis unfolding last_ConsR[OF False] by (rule Cons.IH[OF 2 False os d f1])
  qed
qed

text \<open>
  C4 (as amended). Take any number \<open>N \<ge> 1\<close> of invocations of \<open>reloadPlugins\<close>. If the
  last one returns, the plugin list ends with the instances of the last generation, and
  the entries of the list that carry the marker are exactly these instances: every
  tagged entry is removed at the start of a reload before the new instances are appended
  and tagged, so tagged instances never accumulate. If all \<open>N\<close> invocations return, and the plugins present before the first one
  are untagged and are not among the instances the registries return, the plugin list
  is the list from before the first invocation followed by the instances of the last
  generation only (client instances, then server instances).
\<close>

theorem reloadPlugins_no_accumulation:
  assumes "reloadPlugins_seq envs st = (outcomes, st')" and "envs \<noteq> []"
  shows "(last outcomes = None \<longrightarrow>
           (\<forall>r \<in> set (plugins st').
              vitePlugin_flag (objects st' r) =
                (r \<in> set (clientPlugins_default (last envs) @ serverPlugins_default (last envs))))
           \<and> (\<exists>kept. plugins st' =
                 kept @ clientPlugins_default (last envs) @ serverPlugins_default (last envs)))
    \<and> (list_all (\<lambda>out. out = None) outcomes
         \<and> (\<forall>r \<in> set (plugins st). \<not> vitePlugin_flag (objects st r))
         \<and> (\<forall>env \<in> set envs. set (generation env) \<inter> set (plugins st) = {})
         \<longrightarrow> plugins st' =
               plugins st @ clientPlugins_default (last envs) @ serverPlugins_default (last envs)
             \<and> (\<forall>r \<in> set (plugins st). \<not> vitePlugin_flag (objects st' r))
             \<and> (\<forall>r \<in> set (clientPlugins_default (last envs) @ serverPlugins_default (last envs)).
                   vitePlugin_flag (objects st' r)))"
proof (rule conjI; rule impI)
  assume "last outcomes = None"
  from reloadPlugins_seq_tagged[OF assms this]
  show "(\<forall>r \<in> set (plugins st').
          vitePlugin_flag (objects st' r) =
            (r \<in> set (clientPlugins_default (last envs) @ serverPlugins_default (last envs))))
        \<and> (\<exists>kept. plugins st' =
              kept @ clientPlugins_default (last envs) @ serverPlugins_default (last envs))"
    by (simp add: generation_def)
next
  assume a: "list_all (\<lambda>out. out = None) outcomes
         \<and> (\<forall>r \<in> set (plugins st). \<not> vitePlugin_flag (objects st r))
         \<and> (\<forall>env \<in> set envs. set (generation env) \<inter> set (plugins st) = {})"
  then have f: "filter (\<lambda>r. \<not> vitePlugin_flag (objects st r)) (plugins st) = plugins st"
    by (simp add: filter_id_conv)
  from a have ok: "list_all (\<lambda>out. out = None) outcomes"
    and d: "\<forall>env \<in> set envs. set (generation env) \<inter> set (plugins st) = {}" by simp_all
  from reloadPlugins_seq_invariant[OF assms ok d f]
  have 1: "plugins st' = plugins st @ generation (last envs)"
    and 2: "filter (\<lambda>r. \<not> vitePlugin_flag (objects st' r)) (plugins st') = plugins st"
    and 3: "\<forall>r \<in> set (generation (last envs)). vitePlugin_flag (objects st' r)"
    by blast+
  from 2 3 have "filter (\<lambda>r. \<not> vitePlugin_flag (objects st' r)) (plugins st) = plugins st"
    by (simp add: 1)
  then have "\<forall>r \<in> set (plugins st). \<not> vitePlugin_flag (objects st' r)"
    by (simp add: filter_id_conv)
  with 1 3 show "plugins st' =
               plugins st @ clientPlugins_default (last envs) @ serverPlugins_default (last envs)
             \<and> (\<forall>r \<in> set (plugins st). \<not> vitePlugin_flag (objects st' r))
             \<and> (\<forall>r \<in> set (clientPlugins_default (last envs) @ serverPlugins_default (last envs)).
                   vitePlugin_flag (objects st' r))"
    by (simp add: generation_def)
qed

theorem reloadPlugins_no_accumulation_witness:
  "fst (reloadPlugins_seq [sample_env, sample_env\<lparr>clientPlugins_default := [20]\<rparr>] (sample_state True))
     = [None, None]
   \<and> plugins (snd (reloadPlugins_seq [sample_env, sample_env\<lparr>clientPlugins_default := [20]\<rparr>]
        (sample_state True))) = [0, 1, 20, 12]
   \<and> map (vitePlugin_flag \<circ> objects (snd (reloadPlugins_seq
        [sample_env, sample_env\<lparr>clientPlugins_default := [20]\<rparr>] (sample_state True))))
        [0, 1, 20, 12] = [False, False, True, True]"
proof -
  let ?envs = "[sample_env, sample_env\<lparr>clientPlugins_default := [20]\<rparr>]"
  obtain outcomes st' where r: "reloadPlugins_seq ?envs (sample_state True) = (outcomes, st')"
    by (cases "reloadPlugins_seq ?envs (sample_state True)")
  have o: "fst (reloadPlugins_seq ?envs (sample_state True)) = [None, None]"
    by (simp add: sample_run_defs raised_def state_after_def)
  with r have ok: "outcomes = [None, None]" by simp
  have 2: "?envs \<noteq> []" by simp
  have 3: "list_all (\<lambda>out. out = None) outcomes
      \<and> (\<forall>r \<in> set (plugins (sample_state True)). \<not> vitePlugin_flag (objects (sample_state True) r))
      \<and> (\<forall>env \<in> set ?envs. set (generation env) \<inter> set (plugins (sample_state True)) = {})"
    by (simp add: ok sample_state_simps sample_objects_def bare_plugin_def generation_def sample_env_def)
  from ok have 4: "last outcomes = None" by simp
  from reloadPlugins_no_accumulation[OF r 2, THEN conjunct1, THEN mp, OF 4]
  have "\<exists>kept. plugins st' = kept @ [20, 12]"
    by (simp add: sample_env_def)
  from reloadPlugins_no_accumulation[OF r 2, THEN conjunct2, THEN mp, OF 3]
  have "plugins st' = [0, 1, 20, 12]"
    and "\<not> vitePlugin_flag (objects st' 0)" "\<not> vitePlugin_flag (objects st' 1)"
    and "vitePlugin_flag (objects st' 20)" "vitePlugin_flag (objects st' 12)"
    by (simp_all add: sample_state_simps sample_env_def)
  with r o show ?thesis by simp
qed

text \<open>
  The claim as stated fails when an earlier invocation has raised. In a development
  state, the first reload gets the client instances 10 and 11 and the server instance
  12, and the \<^verbatim>\<open>init\<close> hook of 11 throws: all three are in the list by then, 10 and 11
  are tagged and 12 is not. The second reload returns; it removes 10 and 11 and keeps
  12 beside its own generation 20 and 22.
\<close>

definition faulty_state :: state where
  "faulty_state =
     (sample_state False)
       \<lparr>objects := sample_objects(11 := (sample_objects 11)\<lparr>init := Some Throws\<rparr>),
        vite := Some (createServer sample_env (config devConfig))\<rparr>"

theorem reloadPlugins_failed_generation_counterexample:
  "fst (reloadPlugins_seq
          [sample_env, sample_env\<lparr>clientPlugins_default := [20], serverPlugins_default := [22]\<rparr>]
          faulty_state) = [Some HookError, None]
   \<and> plugins (state_after (reloadPlugins sample_env faulty_state)) = [0, 1, 10, 11, 12]
   \<and> map (vitePlugin_flag \<circ> objects (state_after (reloadPlugins sample_env faulty_state)))
        [0, 1, 10, 11, 12] = [False, False, True, True, False]
   \<and> plugins (snd (reloadPlugins_seq
          [sample_env, sample_env\<lparr>clientPlugins_default := [20], serverPlugins_default := [22]\<rparr>]
          faulty_state)) = [0, 1, 12, 20, 22]
   \<and> plugins (snd (reloadPlugins_seq
          [sample_env, sample_env\<lparr>clientPlugins_default := [20], serverPlugins_default := [22]\<rparr>]
          faulty_state)) \<noteq> plugins faulty_state @ [20] @ [22]"
  by (simp add: faulty_state_def sample_run_defs raised_def state_after_def)

subsection \<open>The build branch\<close>

definition never_fails :: "env \<Rightarrow> bool" where
  "never_fails env = (\<forall>e. \<not> fails env e)"

definition keeps_build_options :: "(VitePluginConfig \<Rightarrow> error + VitePluginConfig) \<Rightarrow> bool" where
  "keeps_build_options hook =
     (\<forall>c c'. hook c = Inr c' \<longrightarrow>
        build_ssr (config c') = build_ssr (config c)
        \<and> build_outDir (config c') = build_outDir (config c)
        \<and> build_rollupOptions_input (config c') = build_rollupOptions_input (config c))"

lemma applyHooks_keeps_build_options:
  "list_all keeps_build_options hooks \<Longrightarrow> applyHooks hooks c = Inr c' \<Longrightarrow>
     build_ssr (config c') = build_ssr (config c)
     \<and> build_outDir (config c') = build_outDir (config c)
     \<and> build_rollupOptions_input (config c') = build_rollupOptions_input (config c)"
proof (induction hooks arbitrary: c)
  case Nil
  then show ?case by simp
next
  case (Cons h hooks)
  from Cons.prems(2) obtain c1 where 1: "h c = Inr c1" and 2: "applyHooks hooks c1 = Inr c'"
    by (auto simp: andThen_Inr)
  from Cons.prems(1) 1 have "build_ssr (config c1) = build_ssr (config c)
     \<and> build_outDir (config c1) = build_outDir (config c)
     \<and> build_rollupOptions_input (config c1) = build_rollupOptions_input (config c)"
    by (simp add: keeps_build_options_def)
  with Cons.IH[OF _ 2] Cons.prems(1) show ?case by simp
qed

text \<open>
  C5. With the build flag, when no hook and no external call fails, \<open>postInitExpress\<close>
  returns after exactly these five effects: the environment is materialised and built
  from the configuration the hooks make of the client-only base, it is materialised and
  built again from the configuration they make of the SSR base, and the stop callback is
  called once. No server is created and no middleware is mounted. When the hooks leave
  the build options alone, the first build is not an SSR build and writes to
  \<^verbatim>\<open>./dist/client\<close>; the second is an SSR build, writes to \<^verbatim>\<open>./dist/server\<close>, and has the
  server registry, the client bootstrap and the client registry as its inputs.
\<close>

theorem postInitExpress_build_branch:
  assumes "argv_build env" and "stop st" and "never_fails env"
    and c1: "applyHooks (fst (getRelevantHooks st)) (prodConfig False) = Inr c1"
    and c2: "applyHooks (fst (getRelevantHooks st)) (prodConfig True) = Inr c2"
  shows "\<exists>st'. postInitExpress env st = Inr st'
    \<and> trace st' = trace st @
        [CreateViteEnvironment (serverPluginModules c1) (clientPluginModules c1), Build (config c1),
         CreateViteEnvironment (serverPluginModules c2) (clientPluginModules c2), Build (config c2),
         Stop]
    \<and> vite st' = vite st \<and> router st' = router st \<and> plugins st' = plugins st
    \<and> (list_all keeps_build_options (fst (getRelevantHooks st)) \<longrightarrow>
         build_ssr (config c1) = Some False \<and> build_outDir (config c1) = Some ''./dist/client''
         \<and> build_rollupOptions_input (config c1) = None
         \<and> build_ssr (config c2) = Some True \<and> build_outDir (config c2) = Some ''./dist/server''
         \<and> build_rollupOptions_input (config c2) =
             Some [''./.vite/server.ts'', ''./.vite/client.ts'', ''./.vite/clientPlugins.ts''])"
proof -
  obtain hs ivs pvs where h: "getRelevantHooks st = (hs, ivs, pvs)" by (cases "getRelevantHooks st")
  have nf: "\<not> fails env e" for e using assms(3) by (simp add: never_fails_def)
  have k: "list_all keeps_build_options hs \<Longrightarrow>
         build_ssr (config c1) = Some False \<and> build_outDir (config c1) = Some ''./dist/client''
         \<and> build_rollupOptions_input (config c1) = None
         \<and> build_ssr (config c2) = Some True \<and> build_outDir (config c2) = Some ''./dist/server''
         \<and> build_rollupOptions_input (config c2) =
             Some [''./.vite/server.ts'', ''./.vite/client.ts'', ''./.vite/clientPlugins.ts'']"
    using applyHooks_keeps_build_options[of hs "prodConfig False" c1]
      applyHooks_keeps_build_options[of hs "prodConfig True" c2] c1 c2
    by (simp add: h prodConfig_def)
  show ?thesis
    using assms(1,2) c1 c2 k
    by (simp add: postInitExpress_def h getViteProdConfig_def andThen_def raisedIn_def
        createViteEnvironment_def perform_def nf callStop_def)
qed

theorem postInitExpress_build_witness:
  "\<exists>st'. postInitExpress (sample_env\<lparr>argv_build := True\<rparr>) (sample_state False) = Inr st'
     \<and> trace st' =
         [CreateViteEnvironment [''example/server''] [''example/client''],
          Build (config (prodConfig False)),
          CreateViteEnvironment [''example/server''] [''example/client''],
          Build (config (prodConfig True)),
          Stop]
     \<and> vite st' = None \<and> router st' = [] \<and> plugins st' = [0, 1]
     \<and> build_ssr (config (prodConfig False)) = Some False
     \<and> build_outDir (config (prodConfig False)) = Some ''./dist/client''
     \<and> build_ssr (config (prodConfig True)) = Some True
     \<and> build_outDir (config (prodConfig True)) = Some ''./dist/server''"
proof -
  let ?env = "sample_env\<lparr>argv_build := True\<rparr>"
  let ?c = "\<lambda>ssr. (prodConfig ssr)\<lparr>clientPluginModules := [''example/client''],
                                   serverPluginModules := [''example/server'']\<rparr>"
  have h: "fst (getRelevantHooks (sample_state False)) = [add_modules]"
    by (simp add: getRelevantHooks_def sample_state_simps sample_objects_def bare_plugin_def
        pluginHasViteHooks_def List.map_filter_simps)
  have 1: "argv_build ?env" by simp
  have 2: "stop (sample_state False)" by (simp add: sample_state_simps)
  have 3: "never_fails ?env" by (simp add: never_fails_def sample_env_def)
  have 4: "applyHooks (fst (getRelevantHooks (sample_state False))) (prodConfig False) = Inr (?c False)"
    by (simp add: h add_modules_def andThen_def prodConfig_def)
  have 5: "applyHooks (fst (getRelevantHooks (sample_state False))) (prodConfig True) = Inr (?c True)"
    by (simp add: h add_modules_def andThen_def prodConfig_def)
  have k: "list_all keeps_build_options (fst (getRelevantHooks (sample_state False)))"
    by (auto simp: h keeps_build_options_def add_modules_def)
  from postInitExpress_build_branch[OF 1 2 3 4 5] k show ?thesis
    by (auto simp: sample_state_simps)
qed

subsection \<open>\<^verbatim>\<open>InitVite.getDeps\<close> in production\<close>

text \<open>
  C1. What the code does: \<open>initExpress\<close> wires \<^verbatim>\<open>getDeps: (modules) => getDeps(modules, vite)\<close>,
  so \<^verbatim>\<open>isProduction\<close> keeps its default \<^verbatim>\<open>false\<close>. A production start (the preview flag, or
  \<^verbatim>\<open>NODE_ENV=production\<close>) never creates a dev server, so after it the resolver on the
  \<open>RuntimeContext\<close> runs neither branch and returns the empty list for every entry
  list, whatever the manifest holds.
\<close>

theorem InitVite_getDeps_production_empty:
  assumes "postInitExpress env st = Inr st'" and "\<not> argv_build env"
    and "argv_preview env \<or> isProduction st" and "vite st = None"
  shows "InitVite_mode st' = ''prod'' \<and> InitVite_getDeps mj st' E = ([], [])"
  using postInitExpress_production[OF assms]
  by (simp add: InitVite_mode_def InitVite_getDeps_def getDeps_no_server)

theorem InitVite_getDeps_production_witness:
  "\<exists>st'. postInitExpress (sample_env\<lparr>argv_preview := True\<rparr>) (sample_state False) = Inr st'
     \<and> InitVite_mode st' = ''prod''
     \<and> InitVite_getDeps (manifestJson ''/mock/project'' example_manifest) st'
          [''/mock/project/.vite/client.ts''] = ([], [])
     \<and> getDeps (manifestJson ''/mock/project'' example_manifest)
          [''/mock/project/.vite/client.ts''] None True = ([''a.js'', ''b.js''], [])"
proof -
  let ?env = "sample_env\<lparr>argv_preview := True\<rparr>"
  have "\<exists>st'. postInitExpress ?env (sample_state False) = Inr st'"
    by (simp add: postInitExpress_def getRelevantHooks_def restartServer_def
        pluginHasViteHooks_def List.map_filter_simps sample_run_defs)
  then obtain st' where r: "postInitExpress ?env (sample_state False) = Inr st'" ..
  have 2: "\<not> argv_build ?env" by (simp add: sample_env_def)
  have 3: "argv_preview ?env \<or> isProduction (sample_state False)" by simp
  have 4: "vite (sample_state False) = None" by (simp add: sample_state_simps)
  have g: "getDeps (manifestJson ''/mock/project'' example_manifest)
          [''/mock/project/.vite/client.ts''] None True = ([''a.js'', ''b.js''], [])"
    by code_simp
  from InitVite_getDeps_production_empty[OF r 2 3 4] r g show ?thesis by blast
qed

subsection \<open>Head content\<close>

text \<open>
  A shell template \<open>shell a b c d e\<close> has its \<^verbatim>\<open><head>\<close> after \<open>a\<close>, the head placeholder
  after \<open>b\<close>, \<^verbatim>\<open></head>\<close> after \<open>c\<close> and the body placeholder after \<open>d\<close>; \<open>shell_parts\<close> says
  that these are the first occurrences of the four tokens and that the placeholders and
  \<^verbatim>\<open><head>\<close> do not occur again.
\<close>

definition shell_parts :: "string \<Rightarrow> string \<Rightarrow> string \<Rightarrow> string \<Rightarrow> string \<Rightarrow> bool" where
  "shell_parts a b c d e =
     (\<not> includes_str (a @ ''<head'') ''<head>''
      \<and> \<not> includes_str (a @ ''<head>'' @ b @ ''<!--app-head--'') ''<!--app-head-->''
      \<and> \<not> includes_str (c @ ''</head>'' @ d @ ''<!--app-html-->'' @ e) ''<!--app-head-->''
      \<and> \<not> includes_str (c @ ''</head>'' @ d @ ''<!--app-html--'') ''<!--app-html-->''
      \<and> \<not> includes_str e ''<!--app-html-->''
      \<and> \<not> includes_str (b @ c @ ''</head>'' @ d @ e) ''<head>''
      \<and> \<not> includes_str (b @ c @ ''</head'') ''</head>'')"

definition shell :: "string \<Rightarrow> string \<Rightarrow> string \<Rightarrow> string \<Rightarrow> string \<Rightarrow> string" where
  "shell a b c d e =
     a @ ''<head>'' @ b @ ''<!--app-head-->'' @ c @ ''</head>'' @ d @ ''<!--app-html-->'' @ e"

lemma splitTemplate_shell:
  assumes "shell_parts a b c d e"
  shows "splitTemplate (shell a b c d e) head body
           = Inr (a @ ''<head>'' @ b @ head @ c @ ''</head>'' @ d @ body @ e)"
proof -
  let ?rest = "c @ ''</head>'' @ d @ ''<!--app-html-->'' @ e"
  have 1: "split_str ((a @ ''<head>'' @ b) @ ''<!--app-head-->'' @ ?rest) ''<!--app-head-->''
      = (a @ ''<head>'' @ b) # split_str ?rest ''<!--app-head-->''"
    using assms by (intro split_str_first) (simp_all add: shell_parts_def)
  have 2: "split_str ?rest ''<!--app-head-->'' = [?rest]"
    using assms by (intro split_str_absent) (simp_all add: shell_parts_def)
  have 3: "split_str ((c @ ''</head>'' @ d) @ ''<!--app-html-->'' @ e) ''<!--app-html-->''
      = (c @ ''</head>'' @ d) # split_str e ''<!--app-html-->''"
    using assms by (intro split_str_first) (simp_all add: shell_parts_def)
  have 4: "split_str e ''<!--app-html-->'' = [e]"
    using assms by (intro split_str_absent) (simp_all add: shell_parts_def)
  have hs: "split_str (shell a b c d e) ''<!--app-head-->'' = [a @ ''<head>'' @ b, ?rest]"
    using 1 2 by (simp add: shell_def)
  have bs: "split_str ?rest ''<!--app-html-->'' = [c @ ''</head>'' @ d, e]"
    using 3 4 by simp
  show ?thesis unfolding splitTemplate_def hs Let_def by (simp add: bs[simplified])
qed

lemma head_span_shell:
  assumes "shell_parts a b c d e"
  shows "(let afterHead = split_str (a @ ''<head>'' @ b @ c @ ''</head>'' @ d @ e) ''<head>''
          in if length afterHead < 2 then Inl TypeError
             else Inr (hd (split_str (afterHead ! 1) ''</head>''))) = Inr (b @ c)"
proof -
  let ?rest = "b @ c @ ''</head>'' @ d @ e"
  have 1: "split_str (a @ ''<head>'' @ ?rest) ''<head>'' = a # split_str ?rest ''<head>''"
    using assms by (intro split_str_first) (simp_all add: shell_parts_def)
  have 2: "split_str ?rest ''<head>'' = [?rest]"
    using assms by (intro split_str_absent) (simp_all add: shell_parts_def)
  have 3: "split_str ((b @ c) @ ''</head>'' @ (d @ e)) ''</head>'' = (b @ c) # split_str (d @ e) ''</head>''"
    using assms by (intro split_str_first) (simp_all add: shell_parts_def)
  have ah: "split_str (a @ ''<head>'' @ ?rest) ''<head>'' = [a, ?rest]" using 1 2 by simp
  have "hd (split_str ?rest ''</head>'') = b @ c" using 3 by simp
  then show ?thesis unfolding ah Let_def by simp
qed

text \<open>
  C10 (as amended). When the shell template the state provides is a well-formed shell
  \<open>shell a b c d e\<close>, \<open>generateHeadContent\<close> returns \<open>b @ c\<close>, the text between \<^verbatim>\<open><head>\<close>
  and \<^verbatim>\<open></head>\<close> of the shell with nothing in place of the head placeholder: it calls
  the internal templating routine, not \<open>generateHTMLTemplate\<close>, which puts the charset and
  viewport tags in front of the caller's head content at that placeholder. When the
  template is empty, as in production before the cached shell is set, the call raises a
  \<^verbatim>\<open>TypeError\<close>, and when the template cannot be read it raises that error.
\<close>

theorem generateHeadContent_skips_baseline_head:
  assumes "shell_parts a b c d e"
  shows "(readTemplate st ''/'' = Inr (shell a b c d e) \<longrightarrow> generateHeadContent st = Inr (b @ c))
    \<and> (readTemplate st url = Inr (shell a b c d e) \<longrightarrow>
         generateHTMLTemplate st url head body =
           Inr (a @ ''<head>'' @ b @ meta_tags @ head @ c @ ''</head>'' @ d @ body @ e))
    \<and> (readTemplate st ''/'' = Inr [] \<longrightarrow> generateHeadContent st = Inl TypeError)
    \<and> (readTemplate st ''/'' = Inl err \<longrightarrow> generateHeadContent st = Inl err)"
proof (intro conjI impI)
  assume "readTemplate st ''/'' = Inr (shell a b c d e)"
  then show "generateHeadContent st = Inr (b @ c)"
    using head_span_shell[OF assms]
    by (simp add: generateHeadContent_def internalGenerateHTMLTemplate_def andThen_def
        splitTemplate_shell[OF assms])
next
  assume "readTemplate st url = Inr (shell a b c d e)"
  then show "generateHTMLTemplate st url head body =
           Inr (a @ ''<head>'' @ b @ meta_tags @ head @ c @ ''</head>'' @ d @ body @ e)"
    by (simp add: generateHTMLTemplate_def internalGenerateHTMLTemplate_def andThen_def
        splitTemplate_shell[OF assms])
next
  assume "readTemplate st ''/'' = Inr []"
  then show "generateHeadContent st = Inl TypeError"
    by (simp add: generateHeadContent_def internalGenerateHTMLTemplate_def andThen_def
        splitTemplate_def split_str_def)
next
  assume "readTemplate st ''/'' = Inl err"
  then show "generateHeadContent st = Inl err"
    by (simp add: generateHeadContent_def internalGenerateHTMLTemplate_def andThen_def)
qed

text \<open>The shell that \<open>createViteEnvironment\<close> writes, cut into its five parts.\<close>

definition shell_a :: string where
  \<open>shell_a = ''<!DOCTYPE html>\<newline><html lang="en">\<newline>  ''\<close>

definition shell_b :: string where
  \<open>shell_b = ''\<newline>    ''\<close>

definition shell_c :: string where
  \<open>shell_c = ''\<newline>    <script type="module" src="/client.ts"></script>\<newline>  ''\<close>

definition shell_d :: string where
  \<open>shell_d = ''\<newline>  <body>\<newline>    <div id="app">''\<close>

definition shell_e :: string where
  \<open>shell_e = ''</div>\<newline>  </body>\<newline></html>''\<close>

theorem generateHeadContent_witness:
  "shell_parts shell_a shell_b shell_c shell_d shell_e
   \<and> indexHtml = shell shell_a shell_b shell_c shell_d shell_e
   \<and> \<not> includes_str indexHtml ''<meta''
   \<and> (\<exists>st'. postInitExpress sample_env (sample_state False) = Inr st'
         \<and> readTemplate st' ''/'' = Inr indexHtml
         \<and> generateHeadContent st' = Inr (shell_b @ shell_c)
         \<and> generateHTMLTemplate st' ''/'' [] [] =
             Inr (shell_a @ ''<head>'' @ shell_b @ meta_tags @ shell_c @ ''</head>'' @ shell_d @ shell_e))"
proof -
  have sp: "shell_parts shell_a shell_b shell_c shell_d shell_e" by code_simp
  have ix: "indexHtml = shell shell_a shell_b shell_c shell_d shell_e" by code_simp
  have nm: "\<not> includes_str indexHtml ''<meta''" by code_simp
  have "\<exists>st'. postInitExpress sample_env (sample_state False) = Inr st'
      \<and> readTemplate st' ''/'' = Inr indexHtml"
    by (simp add: postInitExpress_def getRelevantHooks_def restartServer_def
        pluginHasViteHooks_def List.map_filter_simps sample_run_defs getViteDevConfig_def
        add_modules_def devConfig_def createViteEnvironment_def readTemplate_def)
  then obtain st' where r: "postInitExpress sample_env (sample_state False) = Inr st'"
    and t: "readTemplate st' ''/'' = Inr indexHtml" by blast
  note c = generateHeadContent_skips_baseline_head[OF sp, of st' "''/''" "[]" "[]"]
  from c t have 1: "generateHeadContent st' = Inr (shell_b @ shell_c)" by (simp add: ix)
  from c t have 2: "generateHTMLTemplate st' ''/'' [] [] =
             Inr (shell_a @ ''<head>'' @ shell_b @ meta_tags @ shell_c @ ''</head>'' @ shell_d @ shell_e)"
    by (simp add: ix)
  from sp ix nm r t 1 2 show ?thesis by blast
qed

text \<open>
  In production, between \<open>initExpress\<close> and the end of \<open>postInitExpress\<close> (which is when the
  \<^verbatim>\<open>init\<close> hooks of the injected plugins run), there is no template yet.
\<close>

theorem generateHeadContent_unready_counterexample:
  "readTemplate (sample_state True) ''/'' = Inr []
   \<and> generateHeadContent (sample_state True) = Inl TypeError"
  by (simp add: readTemplate_def generateHeadContent_def internalGenerateHTMLTemplate_def
      andThen_def splitTemplate_def split_str_def sample_state_def initExpress_def
      vitePlugin_init_def vitePlugin_def Let_def)

end
